theory Spec2Isabelle
  imports Complex_Main "HOL-Library.Log_Nat" "HOL-Library.Sublist"
begin

section \<open>Python values, exceptions and double-precision floats\<close>

text \<open>
  The converter \<^verbatim>\<open>convert_deepfashion2_to_yolo\<close> of
  \<^verbatim>\<open>training/convert_deepfashion2.py\<close> works on the values that \<^verbatim>\<open>json.load\<close>
  returns.  They are modelled by the datatype \<open>pyval\<close>; an uncaught exception is the
  \<open>Inl\<close> branch of a sum.  A Python \<^verbatim>\<open>float\<close> is an IEEE-754 binary64 value: a finite
  one is the rational number it denotes (\<open>Fin 0\<close> is \<^verbatim>\<open>+0.0\<close>), and every arithmetic
  operation rounds the exact result to the nearest double, ties to even.  A \<^verbatim>\<open>dict\<close> is the
  list of its items in insertion order (its keys are distinct), a \<^verbatim>\<open>str\<close> is its UTF-8
  encoding.
\<close>

datatype py_error =
  TypeError | AttributeError | ZeroDivisionError | OverflowError | ValueError | JSONDecodeError

datatype pyfloat = Fin rat | NegZero | PosInf | NegInf | NaN

datatype pyval =
  PNone
  | PBool bool
  | PInt int
  | PFloat pyfloat
  | PStr string
  | PList "pyval list"
  | PDict "(string \<times> pyval) list"

definition ebind :: "'e + 'a \<Rightarrow> ('a \<Rightarrow> 'e + 'b) \<Rightarrow> 'e + 'b" where
  "ebind m f = (case m of Inl e \<Rightarrow> Inl e | Inr v \<Rightarrow> f v)"

subsection \<open>Rounding to binary64\<close>

definition pow2 :: "int \<Rightarrow> rat" where
  "pow2 e = (if 0 \<le> e then 2 ^ nat e else 1 / 2 ^ nat (- e))"

text \<open>The binary exponent of a non-zero rational: \<open>pow2 (ilog2 x) \<le> \<bar>x\<bar> < pow2 (ilog2 x + 1)\<close>.\<close>

definition ilog2 :: "rat \<Rightarrow> int" where
  "ilog2 x = (if 1 \<le> \<bar>x\<bar> then bitlen \<lfloor>\<bar>x\<bar>\<rfloor> - 1 else - bitlen (\<lceil>1 / \<bar>x\<bar>\<rceil> - 1))"

definition round_half_even :: "rat \<Rightarrow> int" where
  "round_half_even x =
     (let f = \<lfloor>x\<rfloor>; d = x - of_int f
      in if d < 1 / 2 then f else if 1 / 2 < d then f + 1 else if even f then f else f + 1)"

text \<open>
  Round to nearest, ties to even, with 53 significant bits, gradual underflow below
  \<open>2\<^sup>-\<^sup>1\<^sup>0\<^sup>2\<^sup>2\<close> (spacing \<open>2\<^sup>-\<^sup>1\<^sup>0\<^sup>7\<^sup>4\<close>) and overflow to infinity from \<open>2\<^sup>1\<^sup>0\<^sup>2\<^sup>4\<close> on.  A non-zero
  value that rounds to zero keeps its sign.
\<close>

definition round_double :: "rat \<Rightarrow> pyfloat" where
  "round_double x =
     (if x = 0 then Fin 0
      else
        let q = max (ilog2 x - 52) (- 1074);
            m = round_half_even (x / pow2 q)
        in if 2 ^ 1024 \<le> \<bar>of_int m * pow2 q\<bar> then (if 0 < x then PosInf else NegInf)
           else if m = 0 then (if x < 0 then NegZero else Fin 0)
           else Fin (of_int m * pow2 q))"

definition is_double :: "rat \<Rightarrow> bool" where
  "is_double r = (round_double r = Fin r)"

subsection \<open>Float arithmetic\<close>

fun sign_bit :: "pyfloat \<Rightarrow> bool" where
  "sign_bit (Fin r) = (r < 0)"
| "sign_bit NegZero = True"
| "sign_bit PosInf = False"
| "sign_bit NegInf = True"
| "sign_bit NaN = False"

fun is_zero :: "pyfloat \<Rightarrow> bool" where
  "is_zero (Fin r) = (r = 0)"
| "is_zero NegZero = True"
| "is_zero _ = False"

fun is_inf :: "pyfloat \<Rightarrow> bool" where
  "is_inf PosInf = True"
| "is_inf NegInf = True"
| "is_inf _ = False"

fun fval :: "pyfloat \<Rightarrow> rat" where
  "fval (Fin r) = r"
| "fval _ = 0"

definition signed_zero :: "bool \<Rightarrow> pyfloat" where
  "signed_zero neg = (if neg then NegZero else Fin 0)"

definition signed_inf :: "bool \<Rightarrow> pyfloat" where
  "signed_inf neg = (if neg then NegInf else PosInf)"

fun float_neg :: "pyfloat \<Rightarrow> pyfloat" where
  "float_neg (Fin r) = (if r = 0 then NegZero else Fin (- r))"
| "float_neg NegZero = Fin 0"
| "float_neg PosInf = NegInf"
| "float_neg NegInf = PosInf"
| "float_neg NaN = NaN"

definition float_add :: "pyfloat \<Rightarrow> pyfloat \<Rightarrow> pyfloat" where
  "float_add a b =
     (if a = NaN \<or> b = NaN then NaN
      else if is_inf a then (if is_inf b \<and> a \<noteq> b then NaN else a)
      else if is_inf b then b
      else if a = NegZero then b
      else if b = NegZero then a
      else round_double (fval a + fval b))"

definition float_sub :: "pyfloat \<Rightarrow> pyfloat \<Rightarrow> pyfloat" where
  "float_sub a b = float_add a (float_neg b)"

text \<open>The quotient of IEEE-754, for a divisor that is not zero.\<close>

definition ieee_div :: "pyfloat \<Rightarrow> pyfloat \<Rightarrow> pyfloat" where
  "ieee_div a b =
     (if a = NaN \<or> b = NaN then NaN
      else if is_inf a then (if is_inf b then NaN else signed_inf (sign_bit a \<noteq> sign_bit b))
      else if is_inf b \<or> is_zero a then signed_zero (sign_bit a \<noteq> sign_bit b)
      else round_double (fval a / fval b))"

text \<open>Python raises on a zero divisor instead of returning an infinity or a NaN.\<close>

definition float_div :: "pyfloat \<Rightarrow> pyfloat \<Rightarrow> py_error + pyfloat" where
  "float_div a b = (if is_zero b then Inl ZeroDivisionError else Inr (ieee_div a b))"

text \<open>
  Conversion of an unbounded \<^verbatim>\<open>int\<close> to \<^verbatim>\<open>float\<close> and the true division of two
  \<^verbatim>\<open>int\<close>s are correctly rounded and raise \<^verbatim>\<open>OverflowError\<close> where the result is
  too large for a double.
\<close>

definition finite_or_overflow :: "pyfloat \<Rightarrow> py_error + pyfloat" where
  "finite_or_overflow f = (if is_inf f then Inl OverflowError else Inr f)"

definition int_to_float :: "int \<Rightarrow> py_error + pyfloat" where
  "int_to_float i = finite_or_overflow (round_double (of_int i))"

definition int_true_divide :: "int \<Rightarrow> int \<Rightarrow> py_error + pyfloat" where
  "int_true_divide a b =
     (if b = 0 then Inl ZeroDivisionError
      else if a = 0 then Inr (signed_zero (b < 0))
      else finite_or_overflow (round_double (of_int a / of_int b)))"

subsection \<open>The operators on values\<close>

datatype pynum = NInt int | NFloat pyfloat

text \<open>\<^verbatim>\<open>bool\<close> is a subclass of \<^verbatim>\<open>int\<close>: \<^verbatim>\<open>True\<close> counts as 1 in arithmetic.\<close>

fun as_num :: "pyval \<Rightarrow> pynum option" where
  "as_num (PInt i) = Some (NInt i)"
| "as_num (PBool b) = Some (NInt (if b then 1 else 0))"
| "as_num (PFloat f) = Some (NFloat f)"
| "as_num _ = None"

fun float_of_num :: "pynum \<Rightarrow> py_error + pyfloat" where
  "float_of_num (NInt i) = int_to_float i"
| "float_of_num (NFloat f) = Inr f"

fun num_add :: "pynum \<Rightarrow> pynum \<Rightarrow> py_error + pyval" where
  "num_add (NInt i) (NInt j) = Inr (PInt (i + j))"
| "num_add x y =
     ebind (float_of_num x) (\<lambda>f. ebind (float_of_num y) (\<lambda>g. Inr (PFloat (float_add f g))))"

fun num_sub :: "pynum \<Rightarrow> pynum \<Rightarrow> py_error + pyval" where
  "num_sub (NInt i) (NInt j) = Inr (PInt (i - j))"
| "num_sub x y =
     ebind (float_of_num x) (\<lambda>f. ebind (float_of_num y) (\<lambda>g. Inr (PFloat (float_sub f g))))"

fun num_truediv :: "pynum \<Rightarrow> pynum \<Rightarrow> py_error + pyfloat" where
  "num_truediv (NInt i) (NInt j) = int_true_divide i j"
| "num_truediv x y =
     ebind (float_of_num x) (\<lambda>f. ebind (float_of_num y) (\<lambda>g. float_div f g))"

text \<open>
  \<^verbatim>\<open>a + b\<close>: numbers add, two strings or two lists concatenate, anything else is a
  \<^verbatim>\<open>TypeError\<close>.
\<close>

definition py_add :: "pyval \<Rightarrow> pyval \<Rightarrow> py_error + pyval" where
  "py_add a b =
     (case (as_num a, as_num b) of
        (Some x, Some y) \<Rightarrow> num_add x y
      | _ \<Rightarrow>
        (case (a, b) of
           (PStr s, PStr t) \<Rightarrow> Inr (PStr (s @ t))
         | (PList xs, PList ys) \<Rightarrow> Inr (PList (xs @ ys))
         | _ \<Rightarrow> Inl TypeError))"

definition py_sub :: "pyval \<Rightarrow> pyval \<Rightarrow> py_error + pyval" where
  "py_sub a b =
     (case (as_num a, as_num b) of
        (Some x, Some y) \<Rightarrow> num_sub x y
      | _ \<Rightarrow> Inl TypeError)"

definition py_truediv :: "pyval \<Rightarrow> pyval \<Rightarrow> py_error + pyfloat" where
  "py_truediv a b =
     (case (as_num a, as_num b) of
        (Some x, Some y) \<Rightarrow> num_truediv x y
      | _ \<Rightarrow> Inl TypeError)"

text \<open>Comparison of an \<^verbatim>\<open>int\<close> with a \<^verbatim>\<open>float\<close> is exact; every comparison with NaN is false.\<close>

fun int_le_float :: "int \<Rightarrow> pyfloat \<Rightarrow> bool" where
  "int_le_float i (Fin r) = (of_int i \<le> r)"
| "int_le_float i NegZero = (i \<le> 0)"
| "int_le_float i PosInf = True"
| "int_le_float i NegInf = False"
| "int_le_float i NaN = False"

fun float_le_int :: "pyfloat \<Rightarrow> int \<Rightarrow> bool" where
  "float_le_int (Fin r) i = (r \<le> of_int i)"
| "float_le_int NegZero i = (0 \<le> i)"
| "float_le_int PosInf i = False"
| "float_le_int NegInf i = True"
| "float_le_int NaN i = False"

subsection \<open>Formatting\<close>

definition digit_char :: "nat \<Rightarrow> char" where
  "digit_char d = ''0123456789'' ! (d mod 10)"

fun str_nat :: "nat \<Rightarrow> string" where
  "str_nat n = (if n < 10 then [digit_char n] else str_nat (n div 10) @ [digit_char (n mod 10)])"

declare str_nat.simps [simp del]

definition str_int :: "int \<Rightarrow> string" where
  "str_int i = (if i < 0 then CHR ''-'' # str_nat (nat (- i)) else str_nat (nat i))"

definition frac6 :: "nat \<Rightarrow> string" where
  "frac6 m = map (\<lambda>k. digit_char (m div 10 ^ k)) [5, 4, 3, 2, 1, 0]"

text \<open>
  The format specification \<^verbatim>\<open>.6f\<close>: the exact value of the double, rounded to six
  decimals, ties to even; the sign is printed whenever the sign bit is set.
\<close>

fun format_6f :: "pyfloat \<Rightarrow> string" where
  "format_6f (Fin r) =
     (let n = nat (round_half_even (\<bar>r\<bar> * 1000000))
      in (if r < 0 then ''-'' else '''') @ str_nat (n div 1000000) @ ''.'' @ frac6 (n mod 1000000))"
| "format_6f NegZero = ''-0.000000''"
| "format_6f PosInf = ''inf''"
| "format_6f NegInf = ''-inf''"
| "format_6f NaN = ''nan''"

section \<open>The converter\<close>

subsection \<open>Static configuration\<close>

definition CATEGORY_MAPPING :: "(string \<times> int) list" where
  "CATEGORY_MAPPING =
     [(''short sleeve top'', 0),
      (''long sleeve top'', 0),
      (''short sleeve outwear'', 4),
      (''long sleeve outwear'', 4),
      (''vest'', 0),
      (''sling'', 0),
      (''shorts'', 1),
      (''trousers'', 1),
      (''skirt'', 1),
      (''short sleeve dress'', 3),
      (''long sleeve dress'', 3),
      (''vest dress'', 3),
      (''sling dress'', 3)]"

definition CLASSES :: "string list" where
  "CLASSES = [''top'', ''bottom'', ''shoes'', ''dress'', ''outerwear'', ''accessory'']"

subsection \<open>One instance of an annotation\<close>

text \<open>\<^verbatim>\<open>d.get(k, default)\<close>; only a \<^verbatim>\<open>dict\<close> has the method.\<close>

definition dict_get :: "pyval \<Rightarrow> string \<Rightarrow> pyval \<Rightarrow> py_error + pyval" where
  "dict_get d k dflt =
     (case d of
        PDict kvs \<Rightarrow> Inr (case map_of kvs k of None \<Rightarrow> dflt | Some v \<Rightarrow> v)
      | _ \<Rightarrow> Inl AttributeError)"

text \<open>
  \<^verbatim>\<open>category not in CATEGORY_MAPPING\<close> followed by \<^verbatim>\<open>CATEGORY_MAPPING[category]\<close>:
  \<open>None\<close> where the key is absent.  Membership hashes the key, so a list or a dict
  raises \<^verbatim>\<open>TypeError\<close>; every other value that is not a string is simply absent.
\<close>

definition category_lookup :: "pyval \<Rightarrow> py_error + int option" where
  "category_lookup category =
     (case category of
        PStr s \<Rightarrow> Inr (map_of CATEGORY_MAPPING s)
      | PList _ \<Rightarrow> Inl TypeError
      | PDict _ \<Rightarrow> Inl TypeError
      | _ \<Rightarrow> Inr None)"

text \<open>
  A \<^verbatim>\<open>str\<close> is modelled by its UTF-8 encoding, and its items are its code points: a
  code point is a byte that is not a continuation byte (\<^verbatim>\<open>10xxxxxx\<close>), together with the
  continuation bytes that follow it.
\<close>

definition continuation_byte :: "char \<Rightarrow> bool" where
  "continuation_byte c = (128 \<le> (of_char c :: nat) \<and> (of_char c :: nat) < 192)"

function code_points :: "string \<Rightarrow> string list" where
  "code_points [] = []"
| "code_points (c # cs) =
     (c # takeWhile continuation_byte cs) # code_points (dropWhile continuation_byte cs)"
  by pat_completeness auto

termination
  by (relation "measure length") (auto simp: less_Suc_eq_le length_dropWhile_le)

text \<open>\<^verbatim>\<open>len\<close>: of a list its items, of a string its code points, of a dict its keys.\<close>

definition py_len :: "pyval \<Rightarrow> py_error + nat" where
  "py_len v =
     (case v of
        PList xs \<Rightarrow> Inr (length xs)
      | PStr s \<Rightarrow> Inr (length (code_points s))
      | PDict kvs \<Rightarrow> Inr (length kvs)
      | _ \<Rightarrow> Inl TypeError)"

text \<open>
  The elements that unpacking iterates over: of a list its items, of a string its
  characters (each a string of one code point), of a dict its keys.  It is used only on
  a value that has a length.
\<close>

definition py_iter :: "pyval \<Rightarrow> pyval list" where
  "py_iter v =
     (case v of
        PList xs \<Rightarrow> xs
      | PStr s \<Rightarrow> map PStr (code_points s)
      | PDict kvs \<Rightarrow> map (\<lambda>kv. PStr (fst kv)) kvs
      | _ \<Rightarrow> [])"

text \<open>Lines 97 to 100: the normalised centre, width and height.\<close>

definition yolo_box ::
  "nat \<Rightarrow> nat \<Rightarrow> pyval \<Rightarrow> pyval \<Rightarrow> pyval \<Rightarrow> pyval
     \<Rightarrow> py_error + (pyfloat \<times> pyfloat \<times> pyfloat \<times> pyfloat)" where
  "yolo_box img_width img_height x1 y1 x2 y2 =
     ebind (py_add x1 x2) (\<lambda>sx.
     ebind (py_truediv sx (PInt 2)) (\<lambda>mx.
     ebind (py_truediv (PFloat mx) (PInt (int img_width))) (\<lambda>x_center.
     ebind (py_add y1 y2) (\<lambda>sy.
     ebind (py_truediv sy (PInt 2)) (\<lambda>my.
     ebind (py_truediv (PFloat my) (PInt (int img_height))) (\<lambda>y_center.
     ebind (py_sub x2 x1) (\<lambda>dx.
     ebind (py_truediv dx (PInt (int img_width))) (\<lambda>width.
     ebind (py_sub y2 y1) (\<lambda>dy.
     ebind (py_truediv dy (PInt (int img_height))) (\<lambda>height.
     Inr (x_center, y_center, width, height)))))))))))"

text \<open>\<^verbatim>\<open>0 <= v <= 1\<close>\<close>

definition in_bounds :: "pyfloat \<Rightarrow> bool" where
  "in_bounds v = (int_le_float 0 v \<and> float_le_int v 1)"

definition format_label :: "int \<Rightarrow> pyfloat \<Rightarrow> pyfloat \<Rightarrow> pyfloat \<Rightarrow> pyfloat \<Rightarrow> string" where
  "format_label class_id x_center y_center width height =
     str_int class_id @ '' '' @ format_6f x_center @ '' '' @ format_6f y_center
       @ '' '' @ format_6f width @ '' '' @ format_6f height"

text \<open>
  The body of the loop over the items, lines 83 to 105, for one item that is not the
  \<^verbatim>\<open>source\<close> entry: \<open>Inr None\<close> where the instance is dropped, \<open>Inr (Some line)\<close>
  where a label line is appended, \<open>Inl\<close> where an exception leaves the function.
\<close>

definition convert_instance :: "nat \<Rightarrow> nat \<Rightarrow> pyval \<Rightarrow> py_error + string option" where
  "convert_instance img_width img_height item_data =
     ebind (dict_get item_data ''category_name'' (PStr [])) (\<lambda>category.
     ebind (category_lookup category) (\<lambda>found.
       case found of
         None \<Rightarrow> Inr None
       | Some class_id \<Rightarrow>
           ebind (dict_get item_data ''bounding_box'' (PList [])) (\<lambda>bbox.
           ebind (py_len bbox) (\<lambda>n.
             if n \<noteq> 4 then Inr None
             else
               (case py_iter bbox of
                  [x1, y1, x2, y2] \<Rightarrow>
                    ebind (yolo_box img_width img_height x1 y1 x2 y2)
                      (\<lambda>(x_center, y_center, width, height).
                         if list_all in_bounds [x_center, y_center, width, height]
                         then Inr (Some (format_label class_id x_center y_center width height))
                         else Inr None)
                | _ \<Rightarrow> Inl ValueError)))))"

text \<open>
  The loop over \<^verbatim>\<open>data.items()\<close>, with the list \<^verbatim>\<open>yolo_annotations\<close> and the counter
  \<^verbatim>\<open>total_annotations\<close> it updates.
\<close>

fun convert_items ::
  "nat \<Rightarrow> nat \<Rightarrow> (string \<times> pyval) list \<Rightarrow> string list \<Rightarrow> nat
     \<Rightarrow> py_error + (string list \<times> nat)" where
  "convert_items img_width img_height [] yolo_annotations cnt = Inr (yolo_annotations, cnt)"
| "convert_items img_width img_height ((item_key, item_data) # rest) yolo_annotations cnt =
     (if item_key = ''source'' then
        convert_items img_width img_height rest yolo_annotations cnt
      else
        (case convert_instance img_width img_height item_data of
           Inl e \<Rightarrow> Inl e
         | Inr None \<Rightarrow> convert_items img_width img_height rest yolo_annotations cnt
         | Inr (Some line) \<Rightarrow>
             convert_items img_width img_height rest (yolo_annotations @ [line]) (cnt + 1)))"

subsection \<open>Files\<close>

text \<open>
  The source tree is read only.  A split directory is present or not; a present one
  lists its annotation files in the order \<^verbatim>\<open>glob\<close> returns them, each with its stem and
  with what \<^verbatim>\<open>json.load\<close> makes of it (\<open>None\<close> where it raises), and maps the name of
  an image to its bytes and to what \<^verbatim>\<open>Image.open\<close> finds (the text of the exception, or
  the size).  The output is a map from paths to contents, a set of directories and the
  list of the files written during the run, in the order of the writes.
  Failures of the environment (an unwritable output path) are outside the model.
\<close>

record image_file =
  image_bytes :: string
  image_size :: "string + (nat \<times> nat)"

record anno_file =
  anno_stem :: string
  anno_json :: "pyval option"

record split_dir =
  anno_files :: "anno_file list"
  image_files :: "string \<rightharpoonup> image_file"

record source_tree =
  train_split :: "split_dir option"
  validation_split :: "split_dir option"

record conv_state =
  out_files :: "string \<rightharpoonup> string"
  out_dirs :: "string set"
  write_log :: "(string \<times> string) list"
  stdout :: "string list"
  total_images :: nat
  total_annotations :: nat

definition py_print :: "string \<Rightarrow> conv_state \<Rightarrow> conv_state" where
  "py_print line st = st\<lparr>stdout := stdout st @ [line]\<rparr>"

text \<open>
  Writing a file (\<^verbatim>\<open>open(path, 'w')\<close> with \<^verbatim>\<open>write\<close>, or \<^verbatim>\<open>shutil.copy\<close>) replaces what
  the path held and is recorded in the log of the writes of the run.
\<close>

definition write_file :: "string \<Rightarrow> string \<Rightarrow> conv_state \<Rightarrow> conv_state" where
  "write_file path text st =
     st\<lparr>out_files := (out_files st)(path \<mapsto> text), write_log := write_log st @ [(path, text)]\<rparr>"

text \<open>
  The directories above a path: every prefix of the path that is followed by a slash,
  is not empty and does not end with a slash itself.
\<close>

fun parents_from :: "string \<Rightarrow> string \<Rightarrow> string list" where
  "parents_from pre [] = []"
| "parents_from pre (c # cs) =
     (if c = CHR ''/'' \<and> pre \<noteq> [] \<and> last pre \<noteq> CHR ''/'' then [pre] else [])
     @ parents_from (pre @ [c]) cs"

definition parent_dirs :: "string \<Rightarrow> string list" where
  "parent_dirs path = parents_from [] path"

text \<open>
  \<^verbatim>\<open>os.makedirs(path, exist_ok=True)\<close> makes the directory and every directory above it
  that is missing.
\<close>

definition makedirs :: "string \<Rightarrow> conv_state \<Rightarrow> conv_state" where
  "makedirs path st = st\<lparr>out_dirs := out_dirs st \<union> set (parent_dirs path) \<union> {path}\<rparr>"

definition newline :: char where
  "newline = CHR 0x0A"

fun join_lines :: "string list \<Rightarrow> string" where
  "join_lines [] = []"
| "join_lines [l] = l"
| "join_lines (l # ls) = l @ newline # join_lines ls"

definition py_items :: "pyval \<Rightarrow> py_error + (string \<times> pyval) list" where
  "py_items data = (case data of PDict kvs \<Rightarrow> Inr kvs | _ \<Rightarrow> Inl AttributeError)"

definition image_out_path :: "string \<Rightarrow> string \<Rightarrow> string \<Rightarrow> string" where
  "image_out_path output_dir yolo_split stem =
     output_dir @ ''/images/'' @ yolo_split @ ''/'' @ stem @ ''.jpg''"

definition label_path :: "string \<Rightarrow> string \<Rightarrow> string \<Rightarrow> string" where
  "label_path output_dir yolo_split stem =
     output_dir @ ''/labels/'' @ yolo_split @ ''/'' @ stem @ ''.txt''"

text \<open>The body of the loop over the annotation files, lines 60 to 119.\<close>

definition process_anno_file ::
  "string \<Rightarrow> string \<Rightarrow> string \<Rightarrow> (string \<rightharpoonup> image_file) \<Rightarrow> anno_file \<Rightarrow> conv_state
     \<Rightarrow> py_error + conv_state" where
  "process_anno_file output_dir yolo_split image_dir images af st =
     (case anno_json af of
        None \<Rightarrow> Inl JSONDecodeError
      | Some data \<Rightarrow>
          let image_name = anno_stem af @ ''.jpg'';
              image_path = image_dir @ ''/'' @ image_name
          in case images image_name of
               None \<Rightarrow> Inr st
             | Some img \<Rightarrow>
                 (case image_size img of
                    Inl e \<Rightarrow> Inr (py_print (''Error opening '' @ image_path @ '': '' @ e) st)
                  | Inr (img_width, img_height) \<Rightarrow>
                      ebind (py_items data) (\<lambda>items.
                      ebind (convert_items img_width img_height items [] (total_annotations st))
                        (\<lambda>(yolo_annotations, cnt).
                           let st1 = st\<lparr>total_annotations := cnt\<rparr>
                           in if yolo_annotations \<noteq> [] then
                                let st2 = write_file
                                            (image_out_path output_dir yolo_split (anno_stem af))
                                            (image_bytes img) st1;
                                    st3 = write_file
                                            (label_path output_dir yolo_split (anno_stem af))
                                            (join_lines yolo_annotations) st2
                                in Inr (st3\<lparr>total_images := total_images st3 + 1\<rparr>)
                              else Inr st1))))"

fun process_anno_files ::
  "string \<Rightarrow> string \<Rightarrow> string \<Rightarrow> (string \<rightharpoonup> image_file) \<Rightarrow> anno_file list \<Rightarrow> conv_state
     \<Rightarrow> py_error + conv_state" where
  "process_anno_files output_dir yolo_split image_dir images [] st = Inr st"
| "process_anno_files output_dir yolo_split image_dir images (af # afs) st =
     ebind (process_anno_file output_dir yolo_split image_dir images af st)
       (process_anno_files output_dir yolo_split image_dir images afs)"

definition lookup_split :: "source_tree \<Rightarrow> string \<Rightarrow> split_dir option" where
  "lookup_split src split = (if split = ''train'' then train_split src else validation_split src)"

text \<open>The body of the loop over the two splits, lines 48 to 119.\<close>

definition process_split ::
  "source_tree \<Rightarrow> string \<Rightarrow> string \<Rightarrow> string \<Rightarrow> conv_state \<Rightarrow> py_error + conv_state" where
  "process_split src source_dir output_dir split st =
     (let yolo_split = (if split = ''train'' then ''train'' else ''val'');
          anno_dir = source_dir @ ''/'' @ split @ ''/annos'';
          image_dir = source_dir @ ''/'' @ split @ ''/image''
      in case lookup_split src split of
           None \<Rightarrow>
             Inr (py_print (''Warning: '' @ anno_dir @ '' not found, skipping '' @ split @ '' split'') st)
         | Some d \<Rightarrow>
             process_anno_files output_dir yolo_split image_dir (image_files d) (anno_files d)
               (py_print (newline # ''Processing '' @ str_nat (length (anno_files d))
                            @ '' images from '' @ split @ '' split...'') st))"

text \<open>\<^verbatim>\<open>repr\<close> of a list of strings that hold neither quotes nor backslashes.\<close>

fun join_comma :: "string list \<Rightarrow> string" where
  "join_comma [] = []"
| "join_comma [s] = s"
| "join_comma (s # ss) = s @ '', '' @ join_comma ss"

definition repr_str_list :: "string list \<Rightarrow> string" where
  "repr_str_list xs = ''['' @ join_comma (map (\<lambda>s. CHR 0x27 # s @ [CHR 0x27]) xs) @ '']''"

definition yaml_content :: "string \<Rightarrow> nat \<Rightarrow> nat \<Rightarrow> string" where
  "yaml_content abs_output images annotations =
     ''# DeepFashion2 YOLO Dataset Configuration'' @ [newline]
     @ ''path: '' @ abs_output @ [newline]
     @ ''train: images/train'' @ [newline]
     @ ''val: images/val'' @ [newline]
     @ [newline]
     @ ''# Classes'' @ [newline]
     @ ''nc: '' @ str_nat (length CLASSES) @ [newline]
     @ ''names: '' @ repr_str_list CLASSES @ [newline]
     @ [newline]
     @ ''# Dataset Info'' @ [newline]
     @ ''# Source: DeepFashion2 (https://github.com/switchablenorms/DeepFashion2)'' @ [newline]
     @ ''# Categories mapped from 13 DeepFashion2 classes to 6 garment types'' @ [newline]
     @ ''# Total images: '' @ str_nat images @ [newline]
     @ ''# Total annotations: '' @ str_nat annotations @ [newline]"

text \<open>The check mark of the last report, in UTF-8.\<close>

definition check_mark :: string where
  "check_mark = [CHR 0xE2, CHR 0x9C, CHR 0x85]"

text \<open>
  The whole function.  \<open>abspath\<close> is \<^verbatim>\<open>os.path.abspath\<close>, which depends on the working
  directory; \<open>files0\<close> and \<open>dirs0\<close> are what the output location holds before the run.
\<close>

definition convert_deepfashion2_to_yolo ::
  "(string \<Rightarrow> string) \<Rightarrow> source_tree \<Rightarrow> string \<Rightarrow> string
     \<Rightarrow> (string \<rightharpoonup> string) \<Rightarrow> string set \<Rightarrow> py_error + conv_state" where
  "convert_deepfashion2_to_yolo abspath src source_dir output_dir files0 dirs0 =
     (let st0 = \<lparr>out_files = files0, out_dirs = dirs0, write_log = [], stdout = [],
                 total_images = 0, total_annotations = 0\<rparr>;
          st1 = py_print (''Converting DeepFashion2 from '' @ source_dir @ '' to YOLO format...'') st0;
          st2 = makedirs (output_dir @ ''/labels/val'')
                  (makedirs (output_dir @ ''/labels/train'')
                    (makedirs (output_dir @ ''/images/val'')
                      (makedirs (output_dir @ ''/images/train'') st1)))
      in ebind (process_split src source_dir output_dir ''train'' st2) (\<lambda>st3.
         ebind (process_split src source_dir output_dir ''validation'' st3) (\<lambda>st4.
           let st5 = write_file (output_dir @ ''/data.yaml'')
                       (yaml_content (abspath output_dir) (total_images st4) (total_annotations st4))
                       st4
           in Inr (py_print (''   - data.yaml created'')
                    (py_print (''   - Output directory: '' @ output_dir)
                      (py_print (''   - Total annotations: '' @ str_nat (total_annotations st4))
                        (py_print (''   - Total images: '' @ str_nat (total_images st4))
                          (py_print (newline # check_mark @ '' Conversion complete!'') st5))))))))"

section \<open>Notions used in the statements and proofs\<close>

text \<open>The spacing of the doubles around \<open>x\<close>.\<close>

definition ulp_exp :: "rat \<Rightarrow> int" where
  "ulp_exp x = max (ilog2 x - 52) (- 1074)"

definition mant :: "rat \<Rightarrow> int" where
  "mant x = round_half_even (x / pow2 (ulp_exp x))"

text \<open>A float whose value lies in the closed interval from 0 to 1.\<close>

fun unit_interval :: "pyfloat \<Rightarrow> bool" where
  "unit_interval (Fin r) = (0 \<le> r \<and> r \<le> 1)"
| "unit_interval NegZero = True"
| "unit_interval _ = False"

text \<open>The first field of a label line: the text before the first space.\<close>

definition class_field :: "string \<Rightarrow> string" where
  "class_field line = takeWhile (\<lambda>c. c \<noteq> CHR '' '') line"

text \<open>
  The label lines that one annotation file yields: none where the image is missing or
  cannot be opened, an exception where \<^verbatim>\<open>json.load\<close> or an instance raises.
\<close>

definition anno_lines :: "(string \<rightharpoonup> image_file) \<Rightarrow> anno_file \<Rightarrow> py_error + string list" where
  "anno_lines images af =
     (case anno_json af of
        None \<Rightarrow> Inl JSONDecodeError
      | Some data \<Rightarrow>
          (case images (anno_stem af @ ''.jpg'') of
             None \<Rightarrow> Inr []
           | Some img \<Rightarrow>
               (case image_size img of
                  Inl e \<Rightarrow> Inr []
                | Inr (img_width, img_height) \<Rightarrow>
                    ebind (py_items data) (\<lambda>items.
                    ebind (convert_items img_width img_height items [] 0) (\<lambda>(ls, n). Inr ls)))))"

fun collect_lines :: "(string \<rightharpoonup> image_file) \<Rightarrow> anno_file list \<Rightarrow> py_error + string list list" where
  "collect_lines images [] = Inr []"
| "collect_lines images (af # afs) =
     ebind (anno_lines images af) (\<lambda>ls.
     ebind (collect_lines images afs) (\<lambda>lss. Inr (ls # lss)))"

text \<open>The files that one annotation file makes the converter write, in order.\<close>

definition file_writes ::
  "string \<Rightarrow> string \<Rightarrow> (string \<rightharpoonup> image_file) \<Rightarrow> anno_file \<Rightarrow> (string \<times> string) list" where
  "file_writes output_dir yolo_split images af =
     (case (anno_lines images af, images (anno_stem af @ ''.jpg'')) of
        (Inr ls, Some img) \<Rightarrow>
          if ls = [] then []
          else [(image_out_path output_dir yolo_split (anno_stem af), image_bytes img),
                (label_path output_dir yolo_split (anno_stem af), join_lines ls)]
      | _ \<Rightarrow> [])"

definition apply_writes :: "(string \<times> string) list \<Rightarrow> (string \<rightharpoonup> string) \<Rightarrow> (string \<rightharpoonup> string)" where
  "apply_writes ws m = fold (\<lambda>(p, c) m. m(p \<mapsto> c)) ws m"

text \<open>What the converter prints for one annotation file.\<close>

definition file_messages :: "string \<Rightarrow> (string \<rightharpoonup> image_file) \<Rightarrow> anno_file \<Rightarrow> string list" where
  "file_messages image_dir images af =
     (case images (anno_stem af @ ''.jpg'') of
        None \<Rightarrow> []
      | Some img \<Rightarrow>
          (case image_size img of
             Inl e \<Rightarrow> [''Error opening '' @ image_dir @ ''/'' @ anno_stem af @ ''.jpg'' @ '': '' @ e]
           | Inr _ \<Rightarrow> []))"

text \<open>The label files of an output location, and the number of lines of a label file.\<close>

definition label_files :: "string \<Rightarrow> (string \<rightharpoonup> string) \<Rightarrow> string set" where
  "label_files output_dir fs = {p \<in> dom fs. prefix (output_dir @ ''/labels/'') p}"

definition line_count :: "string \<Rightarrow> nat" where
  "line_count text = Suc (length (filter (\<lambda>c. c = newline) text))"

text \<open>The same for a split of the source tree; an absent split has no files.\<close>

definition yolo_split_name :: "string \<Rightarrow> string" where
  "yolo_split_name split = (if split = ''train'' then ''train'' else ''val'')"

definition split_files :: "source_tree \<Rightarrow> string \<Rightarrow> anno_file list" where
  "split_files src split = (case lookup_split src split of None \<Rightarrow> [] | Some d \<Rightarrow> anno_files d)"

definition split_images :: "source_tree \<Rightarrow> string \<Rightarrow> (string \<rightharpoonup> image_file)" where
  "split_images src split =
     (case lookup_split src split of None \<Rightarrow> Map.empty | Some d \<Rightarrow> image_files d)"

definition split_lines :: "source_tree \<Rightarrow> string \<Rightarrow> py_error + string list list" where
  "split_lines src split = collect_lines (split_images src split) (split_files src split)"

definition split_writes :: "source_tree \<Rightarrow> string \<Rightarrow> string \<Rightarrow> (string \<times> string) list" where
  "split_writes src output_dir split =
     concat (map (file_writes output_dir (yolo_split_name split) (split_images src split))
               (split_files src split))"

definition split_messages :: "source_tree \<Rightarrow> string \<Rightarrow> string \<Rightarrow> string list" where
  "split_messages src source_dir split =
     (case lookup_split src split of
        None \<Rightarrow>
          [''Warning: '' @ source_dir @ ''/'' @ split @ ''/annos'' @ '' not found, skipping ''
             @ split @ '' split'']
      | Some d \<Rightarrow>
          (newline # ''Processing '' @ str_nat (length (anno_files d)) @ '' images from ''
             @ split @ '' split...'')
          # concat (map (file_messages (source_dir @ ''/'' @ split @ ''/image'') (image_files d))
                      (anno_files d)))"

definition count_images :: "string list list \<Rightarrow> nat" where
  "count_images lss = length (filter (\<lambda>ls. ls \<noteq> []) lss)"

definition count_annotations :: "string list list \<Rightarrow> nat" where
  "count_annotations lss = sum_list (map length lss)"

text \<open>What a complete run prints.\<close>

definition run_messages :: "source_tree \<Rightarrow> string \<Rightarrow> string \<Rightarrow> nat \<Rightarrow> nat \<Rightarrow> string list" where
  "run_messages src source_dir output_dir images annotations =
     [''Converting DeepFashion2 from '' @ source_dir @ '' to YOLO format...'']
     @ split_messages src source_dir ''train''
     @ split_messages src source_dir ''validation''
     @ [newline # check_mark @ '' Conversion complete!'',
        ''   - Total images: '' @ str_nat images,
        ''   - Total annotations: '' @ str_nat annotations,
        ''   - Output directory: '' @ output_dir,
        ''   - data.yaml created'']"

text \<open>The directories that the run makes sure of, with those above them.\<close>

definition dirs_made :: "string \<Rightarrow> string set" where
  "dirs_made path = set (parent_dirs path) \<union> {path}"

definition output_dirs :: "string \<Rightarrow> string set" where
  "output_dirs output_dir =
     dirs_made (output_dir @ ''/images/train'') \<union> dirs_made (output_dir @ ''/images/val'')
     \<union> dirs_made (output_dir @ ''/labels/train'') \<union> dirs_made (output_dir @ ''/labels/val'')"

text \<open>
  The label files written during a run: the writes of the log to a path under
  \<^verbatim>\<open>labels/\<close>, in order, each with the text written.
\<close>

definition label_writes :: "string \<Rightarrow> conv_state \<Rightarrow> (string \<times> string) list" where
  "label_writes output_dir st =
     filter (\<lambda>w. prefix (output_dir @ ''/labels/'') (fst w)) (write_log st)"

text \<open>All the writes of a run, those of the manifest apart.\<close>

definition run_writes :: "source_tree \<Rightarrow> string \<Rightarrow> (string \<times> string) list" where
  "run_writes src output_dir =
     split_writes src output_dir ''train'' @ split_writes src output_dir ''validation''"

text \<open>
  A directory holds no two files of the same name: the stems of the annotation files of
  each split are distinct.
\<close>

definition wf_source :: "source_tree \<Rightarrow> bool" where
  "wf_source src =
     (distinct (map anno_stem (split_files src ''train''))
      \<and> distinct (map anno_stem (split_files src ''validation'')))"

text \<open>The lines of an annotation file that raises nothing.\<close>

definition lines_of :: "(string \<rightharpoonup> image_file) \<Rightarrow> anno_file \<Rightarrow> string list" where
  "lines_of images af = (case anno_lines images af of Inl e \<Rightarrow> [] | Inr ls \<Rightarrow> ls)"

text \<open>The annotation files of a split that yield at least one label line.\<close>

definition producing :: "source_tree \<Rightarrow> string \<Rightarrow> anno_file set" where
  "producing src split =
     {af \<in> set (split_files src split). lines_of (split_images src split) af \<noteq> []}"

text \<open>
  Two listings of the same source tree: each split is present in both or in neither, with
  the same annotation files, in whatever order, and the same images.
\<close>

definition same_files :: "split_dir \<Rightarrow> split_dir \<Rightarrow> bool" where
  "same_files d d' = (set (anno_files d') = set (anno_files d) \<and> image_files d' = image_files d)"

definition same_source :: "source_tree \<Rightarrow> source_tree \<Rightarrow> bool" where
  "same_source src src' =
     (rel_option same_files (train_split src) (train_split src')
      \<and> rel_option same_files (validation_split src) (validation_split src'))"

text \<open>
  The unit roundoff of binary64 and half the spacing of the subnormal numbers: rounding
  a value \<open>x\<close> that does not overflow moves it by at most
  \<open>unit_roundoff * \<bar>x\<bar> + min_half_ulp\<close>.
\<close>

definition unit_roundoff :: rat where
  "unit_roundoff = 1 / 2 ^ 53"

definition min_half_ulp :: rat where
  "min_half_ulp = 1 / 2 ^ 1075"

fun is_finite :: "pyfloat \<Rightarrow> bool" where
  "is_finite (Fin r) = True"
| "is_finite NegZero = True"
| "is_finite _ = False"

text \<open>The value of a number, and the numbers that are not an infinity or a NaN.\<close>

fun num_val :: "pynum \<Rightarrow> rat" where
  "num_val (NInt i) = of_int i"
| "num_val (NFloat f) = fval f"

fun num_finite :: "pynum \<Rightarrow> bool" where
  "num_finite (NInt i) = True"
| "num_finite (NFloat f) = is_finite f"

text \<open>
  A value of the annotation that is a number (an int, a bool or a float that is neither
  an infinity nor a NaN) of the given rational value.
\<close>

definition pixel :: "pyval \<Rightarrow> rat \<Rightarrow> bool" where
  "pixel v x = (case as_num v of None \<Rightarrow> False | Some n \<Rightarrow> num_finite n \<and> num_val n = x)"

text \<open>
  The value of the double nearest to \<open>x\<close>, and a coordinate of a pixel box: an int, or
  a float that is a double, of magnitude at most \<open>2\<^sup>5\<^sup>2\<close>.
\<close>

definition fl :: "rat \<Rightarrow> rat" where
  "fl x = fval (round_double x)"

definition coordinate :: "pyval \<Rightarrow> rat \<Rightarrow> bool" where
  "coordinate v x = (pixel v x \<and> is_double x \<and> \<bar>x\<bar> \<le> 2 ^ 52)"

text \<open>A value that can be a key of a dict: anything but a list or a dict.\<close>

fun hashable :: "pyval \<Rightarrow> bool" where
  "hashable (PList xs) = False"
| "hashable (PDict kvs) = False"
| "hashable v = True"

text \<open>
  Modelled from the spec: the inverse transform of the round-trip property, as the
  specification words it:
  \<^verbatim>\<open>x1 = (x_center - width/2) * w\<close> and \<^verbatim>\<open>x2 = (x_center + width/2) * w\<close>, and the same
  for \<^verbatim>\<open>y\<close>, in Python's float arithmetic (the ints 2 and \<^verbatim>\<open>w\<close> are converted to
  float).  The repository holds no such function; it is the test oracle of the property.
\<close>

definition float_mul :: "pyfloat \<Rightarrow> pyfloat \<Rightarrow> pyfloat" where
  "float_mul a b =
     (if a = NaN \<or> b = NaN then NaN
      else if is_inf a \<or> is_inf b then
        (if is_zero a \<or> is_zero b then NaN else signed_inf (sign_bit a \<noteq> sign_bit b))
      else if is_zero a \<or> is_zero b then signed_zero (sign_bit a \<noteq> sign_bit b)
      else round_double (fval a * fval b))"

definition inverse_axis :: "nat \<Rightarrow> pyfloat \<Rightarrow> pyfloat \<Rightarrow> py_error + (pyfloat \<times> pyfloat)" where
  "inverse_axis n center extent =
     ebind (int_to_float 2) (\<lambda>two.
     ebind (float_div extent two) (\<lambda>half.
     ebind (int_to_float (int n)) (\<lambda>s.
       Inr (float_mul (float_sub center half) s, float_mul (float_add center half) s))))"

definition inverse_box ::
  "nat \<Rightarrow> nat \<Rightarrow> pyfloat \<Rightarrow> pyfloat \<Rightarrow> pyfloat \<Rightarrow> pyfloat
     \<Rightarrow> py_error + (pyfloat \<times> pyfloat \<times> pyfloat \<times> pyfloat)" where
  "inverse_box w h x_center y_center width height =
     ebind (inverse_axis w x_center width) (\<lambda>(x1, x2).
     ebind (inverse_axis h y_center height) (\<lambda>(y1, y2).
       Inr (x1, y1, x2, y2)))"


section \<open>Exceptions\<close>

lemma ebind_Inr [simp]: "ebind (Inr v) f = f v"
  by (simp add: ebind_def)

lemma ebind_Inl [simp]: "ebind (Inl e) f = Inl e"
  by (simp add: ebind_def)

lemma ebind_eq_Inr: "ebind m f = Inr y \<longleftrightarrow> (\<exists>v. m = Inr v \<and> f v = Inr y)"
  by (cases m) simp_all


section \<open>Rounding\<close>

lemma pow2_powi: "pow2 e = 2 powi e"
  by (simp add: pow2_def power_int_def inverse_eq_divide power_one_over)

lemma pow2_pos [simp]: "0 < pow2 e"
  by (simp add: pow2_powi)

lemma pow2_nonneg [simp]: "0 \<le> pow2 e"
  using pow2_pos [of e] by (rule less_imp_le)

lemma pow2_neq0 [simp]: "pow2 e \<noteq> 0"
  using pow2_pos [of e] by (rule less_imp_neq [symmetric])

lemma pow2_add: "pow2 (a + b) = pow2 a * pow2 b"
  by (simp add: pow2_powi power_int_add)

lemma pow2_diff: "pow2 (a - b) = pow2 a / pow2 b"
  by (simp add: pow2_powi power_int_diff)

lemma pow2_nat: "0 \<le> e \<Longrightarrow> pow2 e = 2 ^ nat e"
  by (simp add: pow2_def)

lemma pow2_less_iff: "pow2 a < pow2 b \<longleftrightarrow> a < b"
proof
  assume "pow2 a < pow2 b"
  show "a < b"
  proof (rule ccontr)
    assume "\<not> a < b"
    then have "b \<le> a" by simp
    then have "pow2 b \<le> pow2 a"
      unfolding pow2_powi by (intro power_int_increasing) simp_all
    with \<open>pow2 a < pow2 b\<close> show False by simp
  qed
next
  assume "a < b"
  then show "pow2 a < pow2 b"
    unfolding pow2_powi by (intro power_int_strict_increasing) simp_all
qed

lemma pow2_le_iff: "pow2 a \<le> pow2 b \<longleftrightarrow> a \<le> b"
  using pow2_less_iff [of b a] by (auto simp: not_less [symmetric])

lemma ilog2_bounds:
  assumes "x \<noteq> 0"
  shows "pow2 (ilog2 x) \<le> \<bar>x\<bar>" and "\<bar>x\<bar> < pow2 (ilog2 x + 1)"
proof -
  have "pow2 (ilog2 x) \<le> \<bar>x\<bar> \<and> \<bar>x\<bar> < pow2 (ilog2 x + 1)"
  proof (cases "1 \<le> \<bar>x\<bar>")
    case True
    define n where "n = \<lfloor>\<bar>x\<bar>\<rfloor>"
    have n1: "1 \<le> n" using True by (simp add: n_def le_floor_iff)
    then have n0: "0 < n" by simp
    have e: "ilog2 x = bitlen n - 1" using True by (simp add: ilog2_def n_def)
    have b1: "1 \<le> bitlen n" using n0 by (simp add: bitlen_alt_def)
    from bitlen_bounds [OF n0] have lo: "2 ^ nat (bitlen n - 1) \<le> n" and hi: "n < 2 ^ nat (bitlen n)"
      by simp_all
    have "pow2 (ilog2 x) = of_int (2 ^ nat (bitlen n - 1))"
      using b1 by (simp add: e pow2_nat)
    also have "\<dots> \<le> of_int n" using lo by (simp only: of_int_le_iff)
    also have "\<dots> \<le> \<bar>x\<bar>" by (simp add: n_def)
    finally have A: "pow2 (ilog2 x) \<le> \<bar>x\<bar>" .
    have "n + 1 \<le> 2 ^ nat (bitlen n)" using hi by simp
    then have "(of_int (n + 1) :: rat) \<le> of_int (2 ^ nat (bitlen n))"
      by (simp only: of_int_le_iff)
    moreover have "\<bar>x\<bar> < of_int (n + 1)" unfolding n_def by linarith
    ultimately have "\<bar>x\<bar> < of_int (2 ^ nat (bitlen n))" by simp
    also have "\<dots> = pow2 (ilog2 x + 1)" using b1 by (simp add: e pow2_nat)
    finally show ?thesis using A by simp
  next
    case False
    define y where "y = 1 / \<bar>x\<bar>"
    define c where "c = \<lceil>y\<rceil>"
    define k where "k = bitlen (c - 1)"
    have xpos: "0 < \<bar>x\<bar>" using assms by simp
    have y1: "1 < y" using False xpos by (simp add: y_def)
    have c2: "2 \<le> c" using y1 unfolding c_def by linarith
    then have c0: "0 < c - 1" by simp
    have e: "ilog2 x = - k" using False by (simp add: ilog2_def k_def c_def y_def)
    have k1: "1 \<le> k" using c0 by (simp add: k_def bitlen_alt_def)
    from bitlen_bounds [OF c0] have lo: "2 ^ nat (k - 1) \<le> c - 1" and hi: "c - 1 < 2 ^ nat k"
      by (simp_all add: k_def)
    have "y \<le> of_int c" by (simp add: c_def)
    also have "c \<le> 2 ^ nat k" using hi by simp
    then have "(of_int c :: rat) \<le> of_int (2 ^ nat k)" by (simp only: of_int_le_iff)
    finally have yk: "y \<le> 2 ^ nat k" by simp
    have "(of_int (2 ^ nat (k - 1)) :: rat) \<le> of_int (c - 1)" using lo by (simp only: of_int_le_iff)
    moreover have "of_int (c - 1) < y" unfolding c_def by linarith
    ultimately have ky: "2 ^ nat (k - 1) < y" by simp
    have p1: "pow2 (- k) = 1 / 2 ^ nat k" using k1 by (simp add: pow2_def)
    have p2: "pow2 (- k + 1) = 1 / 2 ^ nat (k - 1)"
    proof (cases "k = 1")
      case True then show ?thesis by (simp add: pow2_def)
    next
      case False
      then have "- k + 1 < 0" using k1 by simp
      then show ?thesis by (simp add: pow2_def)
    qed
    have A: "pow2 (ilog2 x) \<le> \<bar>x\<bar>"
      using yk xpos unfolding e p1 y_def by (simp add: field_simps)
    have B: "\<bar>x\<bar> < pow2 (ilog2 x + 1)"
      using ky xpos unfolding e p2 y_def by (simp add: field_simps)
    show ?thesis using A B by simp
  qed
  then show "pow2 (ilog2 x) \<le> \<bar>x\<bar>" and "\<bar>x\<bar> < pow2 (ilog2 x + 1)" by simp_all
qed

lemma ilog2_unique:
  assumes "pow2 e \<le> \<bar>x\<bar>" and "\<bar>x\<bar> < pow2 (e + 1)"
  shows "ilog2 x = e"
proof -
  have x0: "x \<noteq> 0"
  proof
    assume "x = 0"
    with assms(1) have "pow2 e \<le> 0" by simp
    with pow2_pos [of e] show False by linarith
  qed
  from ilog2_bounds [OF x0] assms
  have "pow2 e < pow2 (ilog2 x + 1)" and "pow2 (ilog2 x) < pow2 (e + 1)" by simp_all
  then show ?thesis by (simp add: pow2_less_iff)
qed

lemma round_half_even_error: "\<bar>of_int (round_half_even x) - x\<bar> \<le> 1 / 2"
proof -
  have "of_int \<lfloor>x\<rfloor> \<le> x" and "x < of_int \<lfloor>x\<rfloor> + 1" by linarith+
  then show ?thesis
    unfolding round_half_even_def Let_def by (simp add: abs_le_iff)
qed

lemma round_half_even_of_int [simp]: "round_half_even (of_int n) = n"
  by (simp add: round_half_even_def)

lemma pow2_0 [simp]: "pow2 0 = 1"
  by (simp add: pow2_def)

lemma pow2_Suc: "pow2 (e + 1) = 2 * pow2 e"
  by (simp add: pow2_add) (simp add: pow2_def)

lemma pow2_int: "0 \<le> d \<Longrightarrow> pow2 d = of_int (2 ^ nat d)"
  by (simp add: pow2_def)

lemma round_double_alt:
  "round_double x =
     (if x = 0 then Fin 0
      else if 2 ^ 1024 \<le> \<bar>of_int (mant x) * pow2 (ulp_exp x)\<bar> then (if 0 < x then PosInf else NegInf)
      else if mant x = 0 then (if x < 0 then NegZero else Fin 0)
      else Fin (of_int (mant x) * pow2 (ulp_exp x)))"
  by (simp add: round_double_def Let_def mant_def ulp_exp_def)

lemma mant_error: "\<bar>of_int (mant x) * pow2 (ulp_exp x) - x\<bar> \<le> pow2 (ulp_exp x) / 2"
proof -
  let ?p = "pow2 (ulp_exp x)"
  have p: "0 < ?p" by simp
  have "\<bar>of_int (mant x) - x / ?p\<bar> \<le> 1 / 2"
    unfolding mant_def by (rule round_half_even_error)
  then have "\<bar>of_int (mant x) - x / ?p\<bar> * ?p \<le> 1 / 2 * ?p"
    using p by (intro mult_right_mono) simp_all
  moreover have "\<bar>of_int (mant x) - x / ?p\<bar> * ?p = \<bar>of_int (mant x) * ?p - x\<bar>"
  proof -
    have "\<bar>of_int (mant x) - x / ?p\<bar> * ?p = \<bar>(of_int (mant x) - x / ?p) * ?p\<bar>"
      using p by (simp add: abs_mult)
    also have "(of_int (mant x) - x / ?p) * ?p = of_int (mant x) * ?p - x"
      using p by (simp add: field_simps)
    finally show ?thesis .
  qed
  ultimately show ?thesis by simp
qed

text \<open>The value of a float as a rational; the zeros are 0.\<close>

lemma fval_round_double_error:
  assumes "\<not> is_inf (round_double x)"
  shows "\<bar>fval (round_double x) - x\<bar> \<le> pow2 (ulp_exp x) / 2"
proof (cases "x = 0")
  case True
  then show ?thesis by (simp add: round_double_def)
next
  case False
  from assms False have fin: "\<not> 2 ^ 1024 \<le> \<bar>of_int (mant x) * pow2 (ulp_exp x)\<bar>"
    by (auto simp: round_double_alt split: if_splits)
  have "fval (round_double x) = of_int (mant x) * pow2 (ulp_exp x)"
    using False fin by (simp add: round_double_alt)
  then show ?thesis using mant_error [of x] by simp
qed

lemma ulp_exp_le: "x \<noteq> 0 \<Longrightarrow> - 1022 \<le> ilog2 x \<Longrightarrow> pow2 (ulp_exp x) / 2 \<le> \<bar>x\<bar> / 2 ^ 53"
proof -
  assume x: "x \<noteq> 0" and e: "- 1022 \<le> ilog2 x"
  have u: "ulp_exp x = ilog2 x - 52" using e by (simp add: ulp_exp_def)
  have "pow2 (ulp_exp x) = pow2 (ilog2 x) / pow2 52" by (simp add: u pow2_diff)
  also have "\<dots> \<le> \<bar>x\<bar> / pow2 52"
    using ilog2_bounds(1) [OF x] by (intro divide_right_mono) simp_all
  finally have "pow2 (ulp_exp x) \<le> \<bar>x\<bar> / 2 ^ 52" by (simp add: pow2_def)
  then show ?thesis by simp
qed

text \<open>Rounding does not overflow below \<open>2\<^sup>1\<^sup>0\<^sup>2\<^sup>3\<close>.\<close>

lemma round_double_finite:
  assumes "\<bar>x\<bar> \<le> 2 ^ 1023"
  shows "\<not> is_inf (round_double x)" and "round_double x \<noteq> NaN"
proof -
  have nan: "round_double x \<noteq> NaN" by (simp add: round_double_alt)
  have "\<not> is_inf (round_double x)"
  proof (cases "x = 0")
    case True
    then show ?thesis by (simp add: round_double_def)
  next
    case False
    let ?p = "pow2 (ulp_exp x)"
    have "?p \<le> 2 ^ 971"
    proof -
      have "pow2 (ilog2 x) \<le> pow2 1023"
        using ilog2_bounds(1) [OF False] assms by (simp add: pow2_def)
      then have "ilog2 x \<le> 1023" by (simp add: pow2_le_iff)
      then have "ulp_exp x \<le> 971" by (simp add: ulp_exp_def)
      then have "?p \<le> pow2 971" by (simp add: pow2_le_iff)
      then show ?thesis by (simp add: pow2_def)
    qed
    moreover have "\<bar>of_int (mant x) * ?p\<bar> \<le> \<bar>x\<bar> + ?p / 2"
      using mant_error [of x] by linarith
    ultimately have "\<bar>of_int (mant x) * ?p\<bar> < 2 ^ 1024"
      using assms by simp
    then show ?thesis using False by (simp add: round_double_alt)
  qed
  then show "\<not> is_inf (round_double x)" and "round_double x \<noteq> NaN" using nan by simp_all
qed

text \<open>Every product of an integer of at most 53 bits and a power of two in range is a double.\<close>

lemma round_double_exact_lt:
  assumes m0: "m \<noteq> 0" and m: "\<bar>m\<bar> < 2 ^ 53" and q: "- 1074 \<le> q"
    and r: "\<bar>of_int m * pow2 q\<bar> < 2 ^ 1024"
  shows "round_double (of_int m * pow2 q) = Fin (of_int m * pow2 q)"
proof -
  let ?x = "of_int m * pow2 q :: rat"
  have x0: "?x \<noteq> 0" using m0 by simp
  have "\<bar>?x\<bar> = of_int \<bar>m\<bar> * pow2 q" by (simp add: abs_mult)
  also have "\<dots> < of_int (2 ^ 53) * pow2 q"
    using m by (intro mult_strict_right_mono) (simp_all only: of_int_less_iff pow2_pos)
  also have "\<dots> = pow2 (53 + q)" by (simp add: pow2_add) (simp add: pow2_def)
  finally have "pow2 (ilog2 ?x) < pow2 (53 + q)"
    using ilog2_bounds(1) [OF x0] by simp
  then have "ilog2 ?x - 52 \<le> q" by (simp add: pow2_less_iff)
  then have u: "ulp_exp ?x \<le> q" using q by (simp add: ulp_exp_def)
  define d where "d = q - ulp_exp ?x"
  have d0: "0 \<le> d" using u by (simp add: d_def)
  have "pow2 q = pow2 d * pow2 (ulp_exp ?x)"
    unfolding d_def by (simp add: pow2_diff)
  have "?x / pow2 (ulp_exp ?x) = of_int m * pow2 d"
    by (simp add: d_def pow2_diff)
  also have "\<dots> = of_int (m * 2 ^ nat d)" using d0 by (simp add: pow2_int)
  finally have quot: "?x / pow2 (ulp_exp ?x) = of_int (m * 2 ^ nat d)" .
  have "mant ?x = m * 2 ^ nat d"
    unfolding mant_def quot by (rule round_half_even_of_int)
  then have val: "of_int (mant ?x) * pow2 (ulp_exp ?x) = ?x"
    using d0 \<open>pow2 q = pow2 d * pow2 (ulp_exp ?x)\<close> by (simp add: pow2_int)
  have mant0: "mant ?x \<noteq> 0" using val x0 by auto
  show ?thesis
    using x0 r mant0 unfolding round_double_alt val by simp
qed

lemma round_double_exact:
  assumes m0: "m \<noteq> 0" and m: "\<bar>m\<bar> \<le> 2 ^ 53" and q: "- 1074 \<le> q"
    and r: "\<bar>of_int m * pow2 q\<bar> < 2 ^ 1024"
  shows "round_double (of_int m * pow2 q) = Fin (of_int m * pow2 q)"
proof (cases "\<bar>m\<bar> < 2 ^ 53")
  case True
  show ?thesis by (rule round_double_exact_lt [OF m0 True q r])
next
  case False
  then have "\<bar>m\<bar> = 2 ^ 53" using m by simp
  then consider "m = 2 ^ 53" | "m = - (2 ^ 53)" by (auto simp: abs_if split: if_splits)
  then obtain m' :: int where m': "m = 2 * m'" "m' \<noteq> 0" "\<bar>m'\<bar> < 2 ^ 53"
    by cases auto
  have eq: "(of_int m * pow2 q :: rat) = of_int m' * pow2 (q + 1)"
    by (simp add: m'(1) pow2_Suc)
  have r': "\<bar>of_int m' * pow2 (q + 1)\<bar> < 2 ^ 1024"
    using r unfolding eq .
  have q': "- 1074 \<le> q + 1" using q by simp
  show ?thesis
    unfolding eq by (rule round_double_exact_lt [OF m'(2) m'(3) q' r'])
qed

lemma round_double_of_int:
  assumes "\<bar>i\<bar> \<le> 2 ^ 53"
  shows "round_double (of_int i) = Fin (of_int i)"
proof (cases "i = 0")
  case True
  then show ?thesis by (simp add: round_double_def)
next
  case False
  have "(of_int \<bar>i\<bar> :: rat) \<le> of_int (2 ^ 53)" using assms by (simp only: of_int_le_iff)
  then have "\<bar>of_int i :: rat\<bar> < 2 ^ 1024" by simp
  with round_double_exact [of i 0] False assms show ?thesis by simp
qed

subsection \<open>Integer operands\<close>

lemma finite_or_overflow_Fin [simp]: "finite_or_overflow (Fin r) = Inr (Fin r)"
  by (simp add: finite_or_overflow_def)

lemma int_to_float_exact: "\<bar>i\<bar> \<le> 2 ^ 53 \<Longrightarrow> int_to_float i = Inr (Fin (of_int i))"
  by (simp add: int_to_float_def round_double_of_int)

lemma int_true_divide_2:
  assumes "\<bar>n\<bar> \<le> 2 ^ 53"
  shows "int_true_divide n 2 = Inr (Fin (of_int n / 2))"
proof (cases "n = 0")
  case True
  then show ?thesis by (simp add: int_true_divide_def signed_zero_def)
next
  case False
  have h: "(of_int n / 2 :: rat) = of_int n * pow2 (- 1)" by (simp add: pow2_def)
  have "(of_int \<bar>n\<bar> :: rat) \<le> of_int (2 ^ 53)" using assms by (simp only: of_int_le_iff)
  then have "\<bar>of_int n * pow2 (- 1) :: rat\<bar> < 2 ^ 1024" by (simp add: pow2_def)
  with round_double_exact [of n "- 1"] False assms
  have "round_double (of_int n / 2) = Fin (of_int n / 2)" by (simp add: h)
  then show ?thesis using False by (simp add: int_true_divide_def)
qed

lemma int_true_divide_pos:
  assumes "0 < b" and "\<bar>a\<bar> \<le> 2 ^ 1023"
  shows "int_true_divide a b = Inr (round_double (of_int a / of_int b))"
proof (cases "a = 0")
  case True
  then show ?thesis using assms by (simp add: int_true_divide_def signed_zero_def round_double_def)
next
  case False
  have b1: "(1 :: rat) \<le> of_int b" using assms(1) by simp
  have "\<bar>of_int a / of_int b :: rat\<bar> = of_int \<bar>a\<bar> / of_int b" using assms(1) by simp
  also have "\<dots> \<le> of_int \<bar>a\<bar> / 1" using b1 by (intro divide_left_mono) simp_all
  also have "(of_int \<bar>a\<bar> :: rat) \<le> of_int (2 ^ 1023)" using assms(2) by (simp only: of_int_le_iff)
  finally have "\<bar>of_int a / of_int b :: rat\<bar> \<le> 2 ^ 1023" by simp
  then have "\<not> is_inf (round_double (of_int a / of_int b))" by (rule round_double_finite)
  then show ?thesis using False assms(1) by (simp add: int_true_divide_def finite_or_overflow_def)
qed

lemma float_div_Fin_pos:
  assumes "0 < b"
  shows "float_div (Fin a) (Fin b) = Inr (round_double (a / b))"
  using assms by (simp add: float_div_def ieee_div_def signed_zero_def round_double_def)

lemma bbox_center:
  assumes "\<bar>a\<bar> \<le> 2 ^ 52" and "\<bar>b\<bar> \<le> 2 ^ 52" and "0 < w" and "w \<le> 2 ^ 53"
  shows "ebind (py_add (PInt a) (PInt b)) (\<lambda>s.
           ebind (py_truediv s (PInt 2)) (\<lambda>m. ebind (py_truediv (PFloat m) (PInt (int w))) f))
         = f (round_double ((of_int a + of_int b) / 2 / of_nat w))"
proof -
  have s: "\<bar>a + b\<bar> \<le> 2 ^ 53" using assms(1,2) by simp
  have w: "\<bar>int w\<bar> \<le> 2 ^ 53" using assms(4) by simp
  have w0: "(0 :: rat) < of_nat w" using assms(3) by simp
  show ?thesis
    by (simp add: py_add_def py_truediv_def int_true_divide_2 [OF s] int_to_float_exact [OF w]
        float_div_Fin_pos [OF w0])
qed

lemma bbox_extent:
  assumes "\<bar>a\<bar> \<le> 2 ^ 52" and "\<bar>b\<bar> \<le> 2 ^ 52" and "0 < w"
  shows "ebind (py_sub (PInt b) (PInt a)) (\<lambda>d. ebind (py_truediv d (PInt (int w))) f)
         = f (round_double ((of_int b - of_int a) / of_nat w))"
proof -
  have "\<bar>b - a\<bar> \<le> 2 ^ 53" using assms(1,2) by simp
  then have d: "\<bar>b - a\<bar> \<le> 2 ^ 1023" by simp
  have w0: "0 < int w" using assms(3) by simp
  show ?thesis
    by (simp add: py_sub_def py_truediv_def int_true_divide_pos [OF w0 d])
qed

lemma yolo_box_int:
  assumes "\<bar>x1\<bar> \<le> 2 ^ 52" "\<bar>x2\<bar> \<le> 2 ^ 52" "\<bar>y1\<bar> \<le> 2 ^ 52" "\<bar>y2\<bar> \<le> 2 ^ 52"
    and "0 < img_width" "img_width \<le> 2 ^ 53" "0 < img_height" "img_height \<le> 2 ^ 53"
  shows "yolo_box img_width img_height (PInt x1) (PInt y1) (PInt x2) (PInt y2) =
    Inr (round_double ((of_int x1 + of_int x2) / 2 / of_nat img_width),
         round_double ((of_int y1 + of_int y2) / 2 / of_nat img_height),
         round_double ((of_int x2 - of_int x1) / of_nat img_width),
         round_double ((of_int y2 - of_int y1) / of_nat img_height))"
  unfolding yolo_box_def
  by (simp only: bbox_center [OF assms(1,2,5,6)] bbox_center [OF assms(3,4,7,8)]
      bbox_extent [OF assms(1,2,5)] bbox_extent [OF assms(3,4,7)])

subsection \<open>Evaluation of concrete values\<close>

lemma floor_rat_numeral_div [simp]: "\<lfloor>numeral a / numeral b :: rat\<rfloor> = numeral a div numeral b"
  by (metis floor_divide_of_int_eq of_int_numeral)

lemma ceiling_rat_numeral_div [simp]:
  "\<lceil>numeral a / numeral b :: rat\<rceil> = - (- numeral a div numeral b)"
  using ceiling_divide_eq_div [of "numeral a" "numeral b", where 'a = rat] by simp

lemma str_nat_small: "n < 10 \<Longrightarrow> str_nat n = [digit_char n]"
  by (simp add: str_nat.simps)

lemma str_nat_large: "10 \<le> n \<Longrightarrow> str_nat n = str_nat (n div 10) @ [digit_char (n mod 10)]"
  by (subst str_nat.simps) simp

lemma round_double_three_tenths:
  "round_double (3 / 10) = Fin (5404319552844595 / 18014398509481984)"
proof -
  have e: "ilog2 (3 / 10) = - 2"
    by (rule ilog2_unique) (simp_all add: pow2_def)
  show ?thesis
    by (simp add: round_double_def e round_half_even_def pow2_def Let_def)
qed

lemma round_double_half: "round_double (1 / 2) = Fin (1 / 2)"
  using round_double_exact [of 1 "- 1"] by (simp add: pow2_def)

lemma format_6f_three_tenths:
  "format_6f (Fin (5404319552844595 / 18014398509481984)) = ''0.300000''"
  by (simp add: round_half_even_def Let_def frac6_def digit_char_def str_nat_small)

lemma format_6f_half: "format_6f (Fin (1 / 2)) = ''0.500000''"
  by (simp add: round_half_even_def Let_def frac6_def digit_char_def str_nat_small)


section \<open>One instance\<close>

lemma mapping_values: "map_of CATEGORY_MAPPING s = Some v \<Longrightarrow> v \<in> {0, 1, 3, 4}"
  by (simp add: CATEGORY_MAPPING_def split: if_splits)

lemma mapping_empty_key: "map_of CATEGORY_MAPPING [] = None"
  by (simp add: CATEGORY_MAPPING_def)

lemma convert_instance_unknown:
  assumes "dict_get item ''category_name'' (PStr []) = Inr (PStr s)"
    and "map_of CATEGORY_MAPPING s = None"
  shows "convert_instance w h item = Inr None"
  using assms by (simp add: convert_instance_def category_lookup_def)


text \<open>
  C10: an instance descriptor without the key \<^verbatim>\<open>category_name\<close> is looked up
  under the empty string, which the category mapping does not hold; the instance is
  dropped without an exception and the loop goes on with the remaining items.
\<close>

theorem missing_category_dropped:
  assumes "map_of kvs ''category_name'' = None"
  shows "dict_get (PDict kvs) ''category_name'' (PStr []) = Inr (PStr [])
    \<and> map_of CATEGORY_MAPPING [] = None
    \<and> convert_instance w h (PDict kvs) = Inr None
    \<and> (k \<noteq> ''source'' \<longrightarrow>
         convert_items w h ((k, PDict kvs) # rest) acc n = convert_items w h rest acc n)"
proof -
  have g: "dict_get (PDict kvs) ''category_name'' (PStr []) = Inr (PStr [])"
    using assms by (simp add: dict_get_def)
  have d: "convert_instance w h (PDict kvs) = Inr None"
    using g mapping_empty_key by (rule convert_instance_unknown)
  show ?thesis using g d mapping_empty_key by simp
qed

theorem missing_category_dropped_witness:
  "convert_instance 200 400 (PDict [(''bounding_box'', PList [PInt 10, PInt 20, PInt 110, PInt 220])])
     = Inr None
   \<and> convert_items 200 400
       [(''item1'', PDict [(''bounding_box'', PList [PInt 10, PInt 20, PInt 110, PInt 220])])] [] 0
     = Inr ([], 0)"
  using missing_category_dropped
    [of "[(''bounding_box'', PList [PInt 10, PInt 20, PInt 110, PInt 220])]" 200 400
        "''item1''" "[]" "[]" 0]
  by simp

lemma in_bounds_unit_interval: "in_bounds v \<longleftrightarrow> unit_interval v"
  by (cases v) (simp_all add: in_bounds_def)

lemma convert_instance_bbox:
  assumes "map_of kvs ''category_name'' = Some (PStr cat)"
    and "map_of CATEGORY_MAPPING cat = Some class_id"
    and "map_of kvs ''bounding_box'' = Some (PList [x1, y1, x2, y2])"
  shows "convert_instance w h (PDict kvs) =
    ebind (yolo_box w h x1 y1 x2 y2) (\<lambda>(x_center, y_center, width, height).
      if list_all in_bounds [x_center, y_center, width, height]
      then Inr (Some (format_label class_id x_center y_center width height))
      else Inr None)"
  using assms
  by (simp add: convert_instance_def dict_get_def category_lookup_def py_len_def py_iter_def)

lemma convert_items_dropped:
  assumes "convert_instance w h item = Inr None"
  shows "convert_items w h ((k, item) # rest) acc n = convert_items w h rest acc n"
  using assms by simp

lemma convert_instance_unmapped:
  assumes "map_of kvs ''category_name'' = Some (PStr cat)"
    and "map_of CATEGORY_MAPPING cat = None"
  shows "convert_instance w h (PDict kvs) = Inr None"
  using assms by (simp add: convert_instance_def dict_get_def category_lookup_def)

text \<open>
  C3: an instance whose four normalised values were computed and of which at least one
  lies outside the closed interval from 0 to 1 (negative, above 1, infinite or NaN) is
  dropped: it yields no label line, and the loop over the items goes on with the list of
  lines and the counter of annotations unchanged.
\<close>

theorem out_of_bounds_dropped:
  assumes "map_of kvs ''category_name'' = Some (PStr cat)"
    and "map_of kvs ''bounding_box'' = Some (PList [x1, y1, x2, y2])"
    and "yolo_box w h x1 y1 x2 y2 = Inr (x_center, y_center, width, height)"
    and "\<not> unit_interval x_center \<or> \<not> unit_interval y_center
           \<or> \<not> unit_interval width \<or> \<not> unit_interval height"
  shows "convert_instance w h (PDict kvs) = Inr None
    \<and> convert_items w h ((k, PDict kvs) # rest) acc n = convert_items w h rest acc n"
proof -
  have d: "convert_instance w h (PDict kvs) = Inr None"
  proof (cases "map_of CATEGORY_MAPPING cat")
    case None
    with assms(1) show ?thesis by (rule convert_instance_unmapped)
  next
    case (Some class_id)
    show ?thesis
      using assms(3,4)
      by (auto simp add: convert_instance_bbox [OF assms(1) Some assms(2)] in_bounds_unit_interval)
  qed
  then show ?thesis by (simp add: convert_items_dropped)
qed

lemma round_double_1: "round_double 1 = Fin 1"
  using round_double_exact [of 1 0] by simp

lemma round_double_2: "round_double 2 = Fin 2"
  using round_double_exact [of 2 0] by simp

lemma round_double_quarter: "round_double (1 / 4) = Fin (1 / 4)"
  using round_double_exact [of 1 "- 2"] by (simp add: pow2_def)

theorem out_of_bounds_dropped_witness:
  "yolo_box 256 256 (PInt 0) (PInt 0) (PInt 512) (PInt 128) = Inr (Fin 1, Fin (1 / 4), Fin 2, Fin (1 / 2))
   \<and> \<not> unit_interval (Fin 2)
   \<and> convert_instance 256 256
        (PDict [(''category_name'', PStr ''skirt''),
                (''bounding_box'', PList [PInt 0, PInt 0, PInt 512, PInt 128])]) = Inr None
   \<and> convert_items 256 256
        [(''item1'', PDict [(''category_name'', PStr ''skirt''),
                            (''bounding_box'', PList [PInt 0, PInt 0, PInt 512, PInt 128])])] [] 0
      = Inr ([], 0)"
proof -
  have y: "yolo_box 256 256 (PInt 0) (PInt 0) (PInt 512) (PInt 128)
             = Inr (Fin 1, Fin (1 / 4), Fin 2, Fin (1 / 2))"
    by (simp add: yolo_box_int round_double_1 round_double_2 round_double_quarter round_double_half)
  have u: "\<not> unit_interval (Fin 1) \<or> \<not> unit_interval (Fin (1 / 4))
             \<or> \<not> unit_interval (Fin 2) \<or> \<not> unit_interval (Fin (1 / 2))"
    by simp
  show ?thesis
    using out_of_bounds_dropped
      [of "[(''category_name'', PStr ''skirt''),
            (''bounding_box'', PList [PInt 0, PInt 0, PInt 512, PInt 128])]"
          "''skirt''" "PInt 0" "PInt 0" "PInt 512" "PInt 128" 256 256
          "Fin 1" "Fin (1 / 4)" "Fin 2" "Fin (1 / 2)" "''item1''" "[]" "[]" 0, OF _ _ y u]
      y
    by simp
qed

lemma convert_instance_SomeD:
  assumes "convert_instance w h item = Inr (Some line)"
  shows "\<exists>cat class_id x_center y_center width height.
           map_of CATEGORY_MAPPING cat = Some class_id
           \<and> line = format_label class_id x_center y_center width height
           \<and> in_bounds x_center \<and> in_bounds y_center \<and> in_bounds width \<and> in_bounds height"
proof -
  from assms obtain category found where
    l: "category_lookup category = Inr found"
    and r: "(case found of None \<Rightarrow> Inr None
             | Some class_id \<Rightarrow>
                 ebind (dict_get item ''bounding_box'' (PList [])) (\<lambda>bbox.
                 ebind (py_len bbox) (\<lambda>n.
                   if n \<noteq> 4 then Inr None
                   else (case py_iter bbox of
                      [x1, y1, x2, y2] \<Rightarrow>
                        ebind (yolo_box w h x1 y1 x2 y2)
                          (\<lambda>(x_center, y_center, width, height).
                             if list_all in_bounds [x_center, y_center, width, height]
                             then Inr (Some (format_label class_id x_center y_center width height))
                             else Inr None)
                    | _ \<Rightarrow> Inl ValueError)))) = Inr (Some line)"
    unfolding convert_instance_def ebind_eq_Inr by blast
  from r obtain class_id where f: "found = Some class_id" by (cases found) auto
  from l f obtain cat where c: "map_of CATEGORY_MAPPING cat = Some class_id"
    by (auto simp: category_lookup_def split: pyval.splits)
  from r f obtain x1 y1 x2 y2 box where
    b: "yolo_box w h x1 y1 x2 y2 = Inr box"
    and k: "(case box of (x_center, y_center, width, height) \<Rightarrow>
               if list_all in_bounds [x_center, y_center, width, height]
               then Inr (Some (format_label class_id x_center y_center width height))
               else Inr None) = Inr (Some line)"
    by (auto simp: ebind_eq_Inr split: if_splits list.splits)
  obtain x_center y_center width height where box: "box = (x_center, y_center, width, height)"
    by (cases box) auto
  from k box have "line = format_label class_id x_center y_center width height
      \<and> in_bounds x_center \<and> in_bounds y_center \<and> in_bounds width \<and> in_bounds height"
    by (auto split: if_splits)
  with c show ?thesis by blast
qed

lemma class_field_format_label:
  assumes "class_id \<in> {0, 1, 3, 4}"
  shows "class_field (format_label class_id x_center y_center width height) = str_int class_id"
    and "str_int class_id \<in> {''0'', ''1'', ''3'', ''4''}"
  using assms
  by (auto simp: class_field_def format_label_def str_int_def str_nat_small digit_char_def)

lemma convert_instance_class_field:
  assumes "convert_instance w h item = Inr (Some line)"
  shows "class_field line \<in> {''0'', ''1'', ''3'', ''4''}"
proof -
  from convert_instance_SomeD [OF assms] obtain cat class_id x_center y_center width height
    where c: "map_of CATEGORY_MAPPING cat = Some class_id"
      and l: "line = format_label class_id x_center y_center width height"
    by blast
  from c have "class_id \<in> {0, 1, 3, 4}" by (rule mapping_values)
  then show ?thesis unfolding l by (simp only: class_field_format_label)
qed

lemma convert_items_class_field:
  assumes "convert_items w h items acc n = Inr (lines, n')"
    and "list_all (\<lambda>l. class_field l \<in> {''0'', ''1'', ''3'', ''4''}) acc"
  shows "list_all (\<lambda>l. class_field l \<in> {''0'', ''1'', ''3'', ''4''}) lines"
  using assms
proof (induction items arbitrary: acc n)
  case Nil
  then show ?case by simp
next
  case (Cons kv items)
  obtain k item where kv: "kv = (k, item)" by (cases kv) auto
  show ?case
  proof (cases "k = ''source''")
    case True
    with Cons kv show ?thesis by simp
  next
    case False
    show ?thesis
    proof (cases "convert_instance w h item")
      case (Inl e)
      with Cons.prems kv False show ?thesis by simp
    next
      case (Inr res)
      show ?thesis
      proof (cases res)
        case None
        with Cons Inr kv False show ?thesis by simp
      next
        case (Some line)
        with Inr have "convert_instance w h item = Inr (Some line)" by simp
        then have "class_field line \<in> {''0'', ''1'', ''3'', ''4''}"
          by (rule convert_instance_class_field)
        with Cons.prems(2) have "list_all (\<lambda>l. class_field l \<in> {''0'', ''1'', ''3'', ''4''}) (acc @ [line])"
          by simp
        moreover have "convert_items w h items (acc @ [line]) (n + 1) = Inr (lines, n')"
          using Cons.prems(1) kv False Inr Some by simp
        ultimately show ?thesis by (rule Cons.IH [rotated])
      qed
    qed
  qed
qed

text \<open>
  C6: every value of the category mapping is an index into the six classes and none is
  2 (shoes) or 5 (accessory); a category name that the mapping does not hold makes the
  instance be dropped without an exception; and the class field of every label line
  that is emitted, by one instance or by the loop over all items, is 0, 1, 3 or 4.
\<close>

theorem category_coverage:
  "list_all (\<lambda>(name, class_id). 0 \<le> class_id \<and> class_id < int (length CLASSES)
                \<and> class_id \<noteq> 2 \<and> class_id \<noteq> 5) CATEGORY_MAPPING
   \<and> (map_of kvs ''category_name'' = Some (PStr s) \<and> map_of CATEGORY_MAPPING s = None
        \<longrightarrow> convert_instance w h (PDict kvs) = Inr None)
   \<and> (convert_instance w h item = Inr (Some line)
        \<longrightarrow> class_field line \<in> {''0'', ''1'', ''3'', ''4''})
   \<and> (convert_items w h items [] n = Inr (lines, n')
        \<longrightarrow> list_all (\<lambda>l. class_field l \<in> {''0'', ''1'', ''3'', ''4''}) lines)"
proof -
  have a: "list_all (\<lambda>(name, class_id). 0 \<le> class_id \<and> class_id < int (length CLASSES)
                \<and> class_id \<noteq> 2 \<and> class_id \<noteq> 5) CATEGORY_MAPPING"
    by (simp add: CATEGORY_MAPPING_def CLASSES_def)
  have d: "convert_items w h items [] n = Inr (lines, n')
        \<longrightarrow> list_all (\<lambda>l. class_field l \<in> {''0'', ''1'', ''3'', ''4''}) lines"
    using convert_items_class_field [of w h items "[]" n lines n'] by simp
  show ?thesis
    using a d convert_instance_unmapped [of kvs s w h] convert_instance_class_field [of w h item line]
    by blast
qed

theorem category_coverage_witness:
  "convert_instance 200 400
     (PDict [(''category_name'', PStr ''bag''),
             (''bounding_box'', PList [PInt 10, PInt 20, PInt 110, PInt 220])]) = Inr None
   \<and> class_field ''0 0.300000 0.300000 0.500000 0.500000'' \<in> {''0'', ''1'', ''3'', ''4''}
   \<and> list_all (\<lambda>l. class_field l \<in> {''0'', ''1'', ''3'', ''4''})
        [''0 0.300000 0.300000 0.500000 0.500000'']"
proof -
  have m: "map_of CATEGORY_MAPPING ''short sleeve top'' = Some 0"
    by (simp add: CATEGORY_MAPPING_def)
  have i: "convert_instance 200 400
     (PDict [(''category_name'', PStr ''short sleeve top''),
             (''bounding_box'', PList [PInt 10, PInt 20, PInt 110, PInt 220])])
     = Inr (Some ''0 0.300000 0.300000 0.500000 0.500000'')"
    by (simp add: convert_instance_bbox [OF _ m] yolo_box_int
        round_double_three_tenths round_double_half format_6f_three_tenths
        format_6f_half in_bounds_def format_label_def str_int_def str_nat_small digit_char_def
        del: format_6f.simps)
  have u: "map_of CATEGORY_MAPPING ''bag'' = None"
    by (simp add: CATEGORY_MAPPING_def)
  show ?thesis
    using category_coverage
      [of "[(''category_name'', PStr ''bag''),
            (''bounding_box'', PList [PInt 10, PInt 20, PInt 110, PInt 220])]" "''bag''"
          200 400
          "PDict [(''category_name'', PStr ''short sleeve top''),
                  (''bounding_box'', PList [PInt 10, PInt 20, PInt 110, PInt 220])]"
          "''0 0.300000 0.300000 0.500000 0.500000''"
          "[(''item1'', PDict [(''category_name'', PStr ''short sleeve top''),
                  (''bounding_box'', PList [PInt 10, PInt 20, PInt 110, PInt 220])])]"
          0 "[''0 0.300000 0.300000 0.500000 0.500000'']" 1]
      i u
    by simp
qed

lemma hashable_lookup:
  assumes "hashable category"
  shows "\<exists>found. category_lookup category = Inr found"
  using assms by (cases category) (simp_all add: category_lookup_def)




section \<open>Files and the complete run\<close>

lemma convert_items_acc:
  "convert_items w h items acc n =
     (case convert_items w h items [] 0 of
        Inl e \<Rightarrow> Inl e
      | Inr (ls, k) \<Rightarrow> Inr (acc @ ls, n + k))"
proof (induction items arbitrary: acc n)
  case Nil
  then show ?case by simp
next
  case (Cons kv items)
  obtain k item where kv: "kv = (k, item)" by (cases kv) auto
  show ?case
  proof (cases "k = ''source''")
    case True
    then show ?thesis using Cons.IH [of acc n] kv by simp
  next
    case False
    show ?thesis
    proof (cases "convert_instance w h item")
      case (Inl e)
      then show ?thesis using kv False by simp
    next
      case (Inr res)
      show ?thesis
      proof (cases res)
        case None
        then show ?thesis using Cons.IH [of acc n] kv False Inr by simp
      next
        case (Some line)
        show ?thesis
          using Cons.IH [of "acc @ [line]" "n + 1"] Cons.IH [of "[line]" 1] kv False Inr Some
          by (simp split: sum.splits prod.splits)
      qed
    qed
  qed
qed

lemma convert_items_count:
  "convert_items w h items [] 0 = Inr (ls, k) \<Longrightarrow> k = length ls"
proof (induction items arbitrary: ls k)
  case Nil
  then show ?case by simp
next
  case (Cons kv items)
  obtain key item where kv: "kv = (key, item)" by (cases kv) auto
  show ?case
  proof (cases "key = ''source''")
    case True
    then show ?thesis using Cons kv by simp
  next
    case False
    show ?thesis
    proof (cases "convert_instance w h item")
      case (Inl e)
      then show ?thesis using Cons.prems kv False by simp
    next
      case (Inr res)
      show ?thesis
      proof (cases res)
        case None
        then show ?thesis using Cons kv False Inr by simp
      next
        case (Some line)
        from Cons.prems kv False Inr Some
        have "convert_items w h items [line] 1 = Inr (ls, k)" by simp
        then obtain ls' k' where r: "convert_items w h items [] 0 = Inr (ls', k')"
          and "ls = [line] @ ls'" "k = 1 + k'"
          by (subst (asm) convert_items_acc) (auto split: sum.splits prod.splits)
        with Cons.IH [OF r] show ?thesis by simp
      qed
    qed
  qed
qed

lemma process_anno_file_eq:
  "process_anno_file output_dir yolo_split image_dir images af st =
     (case anno_lines images af of
        Inl e \<Rightarrow> Inl e
      | Inr ls \<Rightarrow>
          Inr (st\<lparr>out_files := apply_writes (file_writes output_dir yolo_split images af) (out_files st),
                   write_log := write_log st @ file_writes output_dir yolo_split images af,
                   stdout := stdout st @ file_messages image_dir images af,
                   total_images := total_images st + (if ls = [] then 0 else 1),
                   total_annotations := total_annotations st + length ls\<rparr>))"
proof (cases "anno_json af")
  case None
  then show ?thesis by (simp add: process_anno_file_def anno_lines_def)
next
  case (Some data)
  show ?thesis
  proof (cases "images (anno_stem af @ ''.jpg'')")
    case None
    then show ?thesis
      using Some
      by (simp add: process_anno_file_def anno_lines_def file_writes_def apply_writes_def
          file_messages_def)
  next
    case img: (Some img)
    show ?thesis
    proof (cases "image_size img")
      case (Inl e)
      then show ?thesis
        using Some img
        by (simp add: process_anno_file_def anno_lines_def file_writes_def apply_writes_def
            file_messages_def py_print_def)
    next
      case (Inr wh)
      obtain w h where wh: "wh = (w, h)" by (cases wh) auto
      show ?thesis
      proof (cases "py_items data")
        case (Inl e)
        then show ?thesis
          using Some img Inr wh
          by (simp add: process_anno_file_def anno_lines_def)
      next
        case items: (Inr items)
        show ?thesis
        proof (cases "convert_items w h items [] 0")
          case (Inl e)
          then show ?thesis
            using Some img Inr wh items
            by (simp add: process_anno_file_def anno_lines_def Let_def
                convert_items_acc [of w h items "[]" "total_annotations st"])
        next
          case r: (Inr res)
          obtain ls k where res: "res = (ls, k)" by (cases res) auto
          have k: "k = length ls" using r res by (simp add: convert_items_count)
          show ?thesis
            using Some img Inr wh items r res k
            by (simp add: process_anno_file_def anno_lines_def Let_def
                convert_items_acc [of w h items "[]" "total_annotations st"]
                file_writes_def apply_writes_def file_messages_def write_file_def)
        qed
      qed
    qed
  qed
qed

lemma apply_writes_Nil [simp]: "apply_writes [] m = m"
  by (simp add: apply_writes_def)

lemma apply_writes_append: "apply_writes (ws @ ws') m = apply_writes ws' (apply_writes ws m)"
  by (simp add: apply_writes_def)

lemma process_anno_files_eq:
  "process_anno_files output_dir yolo_split image_dir images afs st =
     ebind (collect_lines images afs) (\<lambda>lss.
       Inr (st\<lparr>out_files :=
                   apply_writes (concat (map (file_writes output_dir yolo_split images) afs))
                     (out_files st),
                write_log := write_log st
                   @ concat (map (file_writes output_dir yolo_split images) afs),
                stdout := stdout st @ concat (map (file_messages image_dir images) afs),
                total_images := total_images st + count_images lss,
                total_annotations := total_annotations st + count_annotations lss\<rparr>))"
proof (induction afs arbitrary: st)
  case Nil
  then show ?case by (simp add: count_images_def count_annotations_def)
next
  case (Cons af afs)
  show ?case
  proof (cases "anno_lines images af")
    case (Inl e)
    then show ?thesis by (simp add: process_anno_file_eq)
  next
    case (Inr ls)
    show ?thesis
    proof (cases "collect_lines images afs")
      case (Inl e)
      then show ?thesis using Inr by (simp add: process_anno_file_eq Cons.IH)
    next
      case lss: (Inr lss)
      show ?thesis
        using Inr lss
        by (simp add: process_anno_file_eq Cons.IH apply_writes_append count_images_def
            count_annotations_def)
    qed
  qed
qed

lemma process_split_eq:
  "process_split src source_dir output_dir split st =
     ebind (split_lines src split) (\<lambda>lss.
       Inr (st\<lparr>out_files := apply_writes (split_writes src output_dir split) (out_files st),
                write_log := write_log st @ split_writes src output_dir split,
                stdout := stdout st @ split_messages src source_dir split,
                total_images := total_images st + count_images lss,
                total_annotations := total_annotations st + count_annotations lss\<rparr>))"
proof (cases "lookup_split src split")
  case None
  then show ?thesis
    by (simp add: process_split_def split_lines_def split_files_def split_images_def
        split_writes_def split_messages_def py_print_def count_images_def count_annotations_def)
next
  case (Some d)
  show ?thesis
  proof (cases "collect_lines (image_files d) (anno_files d)")
    case (Inl e)
    then show ?thesis
      using Some
      by (simp add: process_split_def split_lines_def split_files_def split_images_def
          process_anno_files_eq Let_def)
  next
    case (Inr lss)
    then show ?thesis
      using Some
      by (simp add: process_split_def split_lines_def split_files_def split_images_def
          split_writes_def split_messages_def py_print_def process_anno_files_eq Let_def
          yolo_split_name_def)
  qed
qed


lemma convert_eq:
  "convert_deepfashion2_to_yolo abspath src source_dir output_dir files0 dirs0 =
     ebind (split_lines src ''train'') (\<lambda>lt.
     ebind (split_lines src ''validation'') (\<lambda>lv.
       Inr \<lparr>out_files =
              (apply_writes (split_writes src output_dir ''train''
                               @ split_writes src output_dir ''validation'') files0)
              (output_dir @ ''/data.yaml'' \<mapsto>
                 yaml_content (abspath output_dir) (count_images lt + count_images lv)
                   (count_annotations lt + count_annotations lv)),
            out_dirs = dirs0 \<union> output_dirs output_dir,
            write_log =
              split_writes src output_dir ''train'' @ split_writes src output_dir ''validation''
              @ [(output_dir @ ''/data.yaml'',
                  yaml_content (abspath output_dir) (count_images lt + count_images lv)
                    (count_annotations lt + count_annotations lv))],
            stdout = run_messages src source_dir output_dir
                       (count_images lt + count_images lv)
                       (count_annotations lt + count_annotations lv),
            total_images = count_images lt + count_images lv,
            total_annotations = count_annotations lt + count_annotations lv\<rparr>))"
proof (cases "split_lines src ''train''")
  case (Inl e)
  then show ?thesis
    by (simp add: convert_deepfashion2_to_yolo_def process_split_eq Let_def)
next
  case lt: (Inr lt)
  show ?thesis
  proof (cases "split_lines src ''validation''")
    case (Inl e)
    then show ?thesis
      using lt by (simp add: convert_deepfashion2_to_yolo_def process_split_eq Let_def)
  next
    case (Inr lv)
    then show ?thesis
      using lt
      by (simp add: convert_deepfashion2_to_yolo_def process_split_eq Let_def py_print_def
          makedirs_def write_file_def apply_writes_append run_messages_def output_dirs_def
          dirs_made_def Un_ac)
  qed
qed

lemma apply_writes_Cons: "apply_writes ((p, c) # ws) m = apply_writes ws (m(p \<mapsto> c))"
  by (simp add: apply_writes_def)

lemma apply_writes_unwritten:
  "p \<notin> fst ` set ws \<Longrightarrow> apply_writes ws m p = m p"
proof (induction ws arbitrary: m)
  case Nil
  then show ?case by simp
next
  case (Cons w ws)
  obtain q c where w: "w = (q, c)" by (cases w) auto
  with Cons.prems have pq: "p \<noteq> q" and nin: "p \<notin> fst ` set ws" by auto
  from nin have "apply_writes ws (m(q \<mapsto> c)) p = (m(q \<mapsto> c)) p" by (rule Cons.IH)
  then show ?case using pq w by (simp add: apply_writes_Cons)
qed

lemma apply_writes_written:
  assumes "(p, c) \<in> set ws" and "\<And>c'. (p, c') \<in> set ws \<Longrightarrow> c' = c"
  shows "apply_writes ws m p = Some c"
  using assms
proof (induction ws arbitrary: m)
  case Nil
  then show ?case by simp
next
  case (Cons w ws)
  obtain q d where w: "w = (q, d)" by (cases w) auto
  show ?case
  proof (cases "p \<in> fst ` set ws")
    case True
    then obtain c' where "(p, c') \<in> set ws" by auto
    with Cons.prems(2) [of c'] have "(p, c) \<in> set ws" by auto
    moreover have "\<And>c'. (p, c') \<in> set ws \<Longrightarrow> c' = c" using Cons.prems(2) by auto
    ultimately have "apply_writes ws (m(q \<mapsto> d)) p = Some c" by (rule Cons.IH)
    then show ?thesis using w by (simp add: apply_writes_Cons)
  next
    case False
    with Cons.prems(1) w have "q = p" "d = c" by (auto simp: image_iff)
    then show ?thesis using False w by (simp add: apply_writes_Cons apply_writes_unwritten)
  qed
qed

lemma label_path_neq_image: "label_path output_dir ys s \<noteq> image_out_path output_dir ys' s'"
  by (simp add: label_path_def image_out_path_def)

lemma yaml_neq_label: "output_dir @ ''/data.yaml'' \<noteq> label_path output_dir ys s"
  by (simp add: label_path_def)

lemma yaml_neq_image: "output_dir @ ''/data.yaml'' \<noteq> image_out_path output_dir ys s"
  by (simp add: image_out_path_def)

lemma yolo_split_name_cases: "yolo_split_name split \<in> {''train'', ''val''}"
  by (simp add: yolo_split_name_def)

lemma split_path_eq:
  assumes "ys @ ''/'' @ s @ ext = ys' @ ''/'' @ s' @ ext"
    and "ys \<in> {''train'', ''val''}" and "ys' \<in> {''train'', ''val''}"
  shows "ys = ys' \<and> s = s'"
proof -
  from assms(2,3) consider "ys = ''train''" "ys' = ''train''" | "ys = ''val''" "ys' = ''val''"
    | "ys = ''train''" "ys' = ''val''" | "ys = ''val''" "ys' = ''train''"
    by auto
  then show ?thesis
  proof cases
    case 1
    with assms(1) show ?thesis by simp
  next
    case 2
    with assms(1) show ?thesis by simp
  next
    case 3
    with assms(1) show ?thesis by simp
  next
    case 4
    with assms(1) show ?thesis by simp
  qed
qed

lemma label_path_inj:
  assumes "label_path output_dir ys s = label_path output_dir ys' s'"
    and "ys \<in> {''train'', ''val''}" and "ys' \<in> {''train'', ''val''}"
  shows "ys = ys' \<and> s = s'"
proof -
  from assms(1) have "ys @ ''/'' @ s @ ''.txt'' = ys' @ ''/'' @ s' @ ''.txt''"
    by (simp add: label_path_def)
  then show ?thesis using assms(2,3) by (rule split_path_eq)
qed

lemma image_out_path_inj:
  assumes "image_out_path output_dir ys s = image_out_path output_dir ys' s'"
    and "ys \<in> {''train'', ''val''}" and "ys' \<in> {''train'', ''val''}"
  shows "ys = ys' \<and> s = s'"
proof -
  from assms(1) have "ys @ ''/'' @ s @ ''.jpg'' = ys' @ ''/'' @ s' @ ''.jpg''"
    by (simp add: image_out_path_def)
  then show ?thesis using assms(2,3) by (rule split_path_eq)
qed

lemma yolo_split_name_inj:
  assumes "yolo_split_name s = yolo_split_name s'"
    and "s \<in> {''train'', ''validation''}" and "s' \<in> {''train'', ''validation''}"
  shows "s = s'"
  using assms by (auto simp: yolo_split_name_def split: if_splits)

lemma collect_lines_member:
  assumes "collect_lines images afs = Inr lss" and "af \<in> set afs"
  shows "\<exists>ls. anno_lines images af = Inr ls"
  using assms
proof (induction afs arbitrary: lss)
  case Nil
  then show ?case by simp
next
  case (Cons a afs)
  from Cons.prems(1) obtain ls lss' where a: "anno_lines images a = Inr ls"
    and r: "collect_lines images afs = Inr lss'"
    by (auto simp: ebind_eq_Inr)
  show ?case
  proof (cases "af = a")
    case True
    with a show ?thesis by blast
  next
    case False
    with Cons.prems(2) have "af \<in> set afs" by simp
    with r show ?thesis by (rule Cons.IH)
  qed
qed

lemma anno_lines_nonempty_image:
  assumes "anno_lines images af = Inr ls" and "ls \<noteq> []"
  shows "\<exists>img. images (anno_stem af @ ''.jpg'') = Some img"
  using assms by (auto simp: anno_lines_def split: option.splits)

lemma file_writes_cases:
  assumes "(p, c) \<in> set (file_writes output_dir ys images af)"
  shows "\<exists>ls img. anno_lines images af = Inr ls \<and> ls \<noteq> []
           \<and> images (anno_stem af @ ''.jpg'') = Some img
           \<and> (p = image_out_path output_dir ys (anno_stem af) \<and> c = image_bytes img
                \<or> p = label_path output_dir ys (anno_stem af) \<and> c = join_lines ls)"
proof -
  from assms obtain ls img where "anno_lines images af = Inr ls"
    and "images (anno_stem af @ ''.jpg'') = Some img" and "ls \<noteq> []"
    and "(p, c) \<in> set [(image_out_path output_dir ys (anno_stem af), image_bytes img),
                       (label_path output_dir ys (anno_stem af), join_lines ls)]"
    by (cases "anno_lines images af"; cases "images (anno_stem af @ ''.jpg'')")
      (auto simp: file_writes_def split: if_splits)
  then show ?thesis by auto
qed

lemma file_writes_nonempty:
  assumes "anno_lines images af = Inr ls" and "ls \<noteq> []"
    and "images (anno_stem af @ ''.jpg'') = Some img"
  shows "file_writes output_dir ys images af
           = [(image_out_path output_dir ys (anno_stem af), image_bytes img),
              (label_path output_dir ys (anno_stem af), join_lines ls)]"
  using assms by (simp add: file_writes_def)

lemma split_writes_member:
  assumes "(p, c) \<in> set (split_writes src output_dir split)"
  shows "\<exists>af ls img. af \<in> set (split_files src split)
           \<and> anno_lines (split_images src split) af = Inr ls \<and> ls \<noteq> []
           \<and> split_images src split (anno_stem af @ ''.jpg'') = Some img
           \<and> (p = image_out_path output_dir (yolo_split_name split) (anno_stem af)
                  \<and> c = image_bytes img
                \<or> p = label_path output_dir (yolo_split_name split) (anno_stem af)
                  \<and> c = join_lines ls)"
proof -
  from assms obtain af where af: "af \<in> set (split_files src split)"
    and w: "(p, c) \<in> set (file_writes output_dir (yolo_split_name split) (split_images src split) af)"
    by (auto simp: split_writes_def)
  from file_writes_cases [OF w] af show ?thesis by blast
qed

lemma split_writes_intro:
  assumes "af \<in> set (split_files src split)"
    and "anno_lines (split_images src split) af = Inr ls" and "ls \<noteq> []"
    and "split_images src split (anno_stem af @ ''.jpg'') = Some img"
  shows "(image_out_path output_dir (yolo_split_name split) (anno_stem af), image_bytes img)
           \<in> set (split_writes src output_dir split)"
    and "(label_path output_dir (yolo_split_name split) (anno_stem af), join_lines ls)
           \<in> set (split_writes src output_dir split)"
  using assms(1) file_writes_nonempty [OF assms(2,3,4), of output_dir "yolo_split_name split"]
  by (auto simp: split_writes_def intro!: bexI [of _ af])

lemma distinct_stems:
  assumes "distinct (map anno_stem afs)" and "af \<in> set afs" and "af' \<in> set afs"
    and "anno_stem af = anno_stem af'"
  shows "af = af'"
  using assms by (auto simp: distinct_map inj_on_def)


lemma run_writes_member:
  assumes "(p, c) \<in> set (run_writes src output_dir)"
  shows "\<exists>split af ls img. split \<in> {''train'', ''validation''}
           \<and> af \<in> set (split_files src split)
           \<and> anno_lines (split_images src split) af = Inr ls \<and> ls \<noteq> []
           \<and> split_images src split (anno_stem af @ ''.jpg'') = Some img
           \<and> (p = image_out_path output_dir (yolo_split_name split) (anno_stem af)
                  \<and> c = image_bytes img
                \<or> p = label_path output_dir (yolo_split_name split) (anno_stem af)
                  \<and> c = join_lines ls)"
proof -
  from assms consider "(p, c) \<in> set (split_writes src output_dir ''train'')"
    | "(p, c) \<in> set (split_writes src output_dir ''validation'')"
    by (auto simp: run_writes_def)
  then show ?thesis
  proof cases
    case 1
    from split_writes_member [OF 1] show ?thesis by blast
  next
    case 2
    from split_writes_member [OF 2] show ?thesis by blast
  qed
qed

lemma run_writes_intro:
  assumes "split \<in> {''train'', ''validation''}"
    and "(p, c) \<in> set (split_writes src output_dir split)"
  shows "(p, c) \<in> set (run_writes src output_dir)"
  using assms by (auto simp: run_writes_def)

lemma convert_InrD:
  assumes "convert_deepfashion2_to_yolo abspath src source_dir output_dir files0 dirs0 = Inr st"
  shows "\<exists>lt lv. split_lines src ''train'' = Inr lt \<and> split_lines src ''validation'' = Inr lv
    \<and> out_files st = (apply_writes (run_writes src output_dir) files0)
         (output_dir @ ''/data.yaml'' \<mapsto>
            yaml_content (abspath output_dir) (total_images st) (total_annotations st))
    \<and> total_images st = count_images lt + count_images lv
    \<and> total_annotations st = count_annotations lt + count_annotations lv
    \<and> write_log st = run_writes src output_dir
         @ [(output_dir @ ''/data.yaml'',
             yaml_content (abspath output_dir) (total_images st) (total_annotations st))]
    \<and> out_dirs st = dirs0 \<union> output_dirs output_dir"
proof -
  from assms obtain lt lv where lt: "split_lines src ''train'' = Inr lt"
    and lv: "split_lines src ''validation'' = Inr lv"
    unfolding convert_eq by (auto simp: ebind_eq_Inr)
  from assms have "st = \<lparr>out_files =
              (apply_writes (split_writes src output_dir ''train''
                               @ split_writes src output_dir ''validation'') files0)
              (output_dir @ ''/data.yaml'' \<mapsto>
                 yaml_content (abspath output_dir) (count_images lt + count_images lv)
                   (count_annotations lt + count_annotations lv)),
            out_dirs = dirs0 \<union> output_dirs output_dir,
            write_log =
              split_writes src output_dir ''train'' @ split_writes src output_dir ''validation''
              @ [(output_dir @ ''/data.yaml'',
                  yaml_content (abspath output_dir) (count_images lt + count_images lv)
                    (count_annotations lt + count_annotations lv))],
            stdout = run_messages src source_dir output_dir
                       (count_images lt + count_images lv)
                       (count_annotations lt + count_annotations lv),
            total_images = count_images lt + count_images lv,
            total_annotations = count_annotations lt + count_annotations lv\<rparr>"
    unfolding convert_eq lt lv by simp
  then show ?thesis using lt lv by (simp add: run_writes_def)
qed

lemma split_lookup:
  assumes "lookup_split src split = Some d"
  shows "split_files src split = anno_files d" and "split_images src split = image_files d"
  using assms by (simp_all add: split_files_def split_images_def)

text \<open>Who writes a given label file or image copy: only the annotation file of that stem.\<close>

lemma run_writes_owner:
  assumes split: "split \<in> {''train'', ''validation''}"
    and d: "lookup_split src split = Some d"
    and stems: "distinct (map anno_stem (anno_files d))"
    and af: "af \<in> set (anno_files d)"
    and w: "(p, c) \<in> set (run_writes src output_dir)"
    and p: "p = label_path output_dir (yolo_split_name split) (anno_stem af)
            \<or> p = image_out_path output_dir (yolo_split_name split) (anno_stem af)"
  shows "\<exists>ls img. anno_lines (image_files d) af = Inr ls \<and> ls \<noteq> []
           \<and> image_files d (anno_stem af @ ''.jpg'') = Some img
           \<and> (p = label_path output_dir (yolo_split_name split) (anno_stem af) \<longrightarrow> c = join_lines ls)
           \<and> (p = image_out_path output_dir (yolo_split_name split) (anno_stem af)
                \<longrightarrow> c = image_bytes img)"
proof -
  from run_writes_member [OF w] obtain split' af' ls img where
    s': "split' \<in> {''train'', ''validation''}"
    and af': "af' \<in> set (split_files src split')"
    and ls: "anno_lines (split_images src split') af' = Inr ls" "ls \<noteq> []"
    and img: "split_images src split' (anno_stem af' @ ''.jpg'') = Some img"
    and pc: "p = image_out_path output_dir (yolo_split_name split') (anno_stem af') \<and> c = image_bytes img
             \<or> p = label_path output_dir (yolo_split_name split') (anno_stem af') \<and> c = join_lines ls"
    by blast
  have same: "yolo_split_name split' = yolo_split_name split \<and> anno_stem af' = anno_stem af"
    using p pc label_path_inj [OF _ yolo_split_name_cases yolo_split_name_cases]
      image_out_path_inj [OF _ yolo_split_name_cases yolo_split_name_cases]
      label_path_neq_image
    by metis
  then have "yolo_split_name split' = yolo_split_name split" by simp
  then have "split' = split" using s' split by (rule yolo_split_name_inj)
  with af' d have in_d: "af' \<in> set (anno_files d)" by (simp add: split_lookup)
  from same have "anno_stem af' = anno_stem af" by simp
  with stems in_d af have "af' = af" by (rule distinct_stems)
  with ls img \<open>split' = split\<close> d
  have a: "anno_lines (image_files d) af = Inr ls" "ls \<noteq> []"
    "image_files d (anno_stem af @ ''.jpg'') = Some img"
    by (simp_all add: split_lookup)
  have "p = label_path output_dir (yolo_split_name split) (anno_stem af) \<longrightarrow> c = join_lines ls"
    using pc label_path_neq_image by metis
  moreover have "p = image_out_path output_dir (yolo_split_name split) (anno_stem af)
      \<longrightarrow> c = image_bytes img"
    using pc label_path_neq_image by metis
  ultimately show ?thesis using a by blast
qed

text \<open>
  C4: after a complete run, for every annotation file of a split that is present (the
  stems of a directory's files being distinct): where the file yields no label line, the
  run has written neither the label file nor the image copy of that stem (the two paths
  hold what they held before the run); where it yields at least one line, the label
  file holds exactly those lines and the image copy holds the bytes of the image.
\<close>

theorem no_empty_label:
  assumes run: "convert_deepfashion2_to_yolo abspath src source_dir output_dir files0 dirs0 = Inr st"
    and split: "split \<in> {''train'', ''validation''}"
    and d: "lookup_split src split = Some d"
    and stems: "distinct (map anno_stem (anno_files d))"
    and af: "af \<in> set (anno_files d)"
    and lp: "lp = label_path output_dir (yolo_split_name split) (anno_stem af)"
    and ip: "ip = image_out_path output_dir (yolo_split_name split) (anno_stem af)"
  shows "\<exists>ls. anno_lines (image_files d) af = Inr ls
    \<and> (ls = [] \<longrightarrow> out_files st lp = files0 lp \<and> out_files st ip = files0 ip)
    \<and> (ls \<noteq> [] \<longrightarrow> out_files st lp = Some (join_lines ls)
         \<and> (\<exists>img. image_files d (anno_stem af @ ''.jpg'') = Some img
                \<and> out_files st ip = Some (image_bytes img)))"
proof -
  from convert_InrD [OF run] obtain lt lv where
    lt: "split_lines src ''train'' = Inr lt" and lv: "split_lines src ''validation'' = Inr lv"
    and files: "out_files st = (apply_writes (run_writes src output_dir) files0)
         (output_dir @ ''/data.yaml'' \<mapsto>
            yaml_content (abspath output_dir) (total_images st) (total_annotations st))"
    by blast
  have at_lp: "out_files st lp = apply_writes (run_writes src output_dir) files0 lp"
    unfolding files lp
    using yaml_neq_label [of output_dir "yolo_split_name split" "anno_stem af", symmetric]
    by (simp only: fun_upd_apply if_False)
  have at_ip: "out_files st ip = apply_writes (run_writes src output_dir) files0 ip"
    unfolding files ip
    using yaml_neq_image [of output_dir "yolo_split_name split" "anno_stem af", symmetric]
    by (simp only: fun_upd_apply if_False)
  from split lt lv obtain lss where "split_lines src split = Inr lss" by auto
  then have "collect_lines (image_files d) (anno_files d) = Inr lss"
    using d by (simp add: split_lines_def split_lookup)
  from collect_lines_member [OF this af] obtain ls
    where ls: "anno_lines (image_files d) af = Inr ls" by blast
  have owner: "\<And>p c. (p, c) \<in> set (run_writes src output_dir) \<Longrightarrow> p = lp \<or> p = ip \<Longrightarrow>
      \<exists>img. ls \<noteq> [] \<and> image_files d (anno_stem af @ ''.jpg'') = Some img
        \<and> (p = lp \<longrightarrow> c = join_lines ls) \<and> (p = ip \<longrightarrow> c = image_bytes img)"
  proof -
    fix p c
    assume w: "(p, c) \<in> set (run_writes src output_dir)" and "p = lp \<or> p = ip"
    then have p: "p = label_path output_dir (yolo_split_name split) (anno_stem af)
            \<or> p = image_out_path output_dir (yolo_split_name split) (anno_stem af)"
      by (simp add: lp ip)
    from run_writes_owner [OF split d stems af w p] ls
    show "\<exists>img. ls \<noteq> [] \<and> image_files d (anno_stem af @ ''.jpg'') = Some img
        \<and> (p = lp \<longrightarrow> c = join_lines ls) \<and> (p = ip \<longrightarrow> c = image_bytes img)"
      by (auto simp: lp ip)
  qed
  have empty: "ls = [] \<longrightarrow> out_files st lp = files0 lp \<and> out_files st ip = files0 ip"
  proof
    assume e: "ls = []"
    have "lp \<notin> fst ` set (run_writes src output_dir)"
      using owner e by fastforce
    moreover have "ip \<notin> fst ` set (run_writes src output_dir)"
      using owner e by fastforce
    ultimately show "out_files st lp = files0 lp \<and> out_files st ip = files0 ip"
      by (simp add: at_lp at_ip apply_writes_unwritten)
  qed
  have nonempty: "ls \<noteq> [] \<longrightarrow> out_files st lp = Some (join_lines ls)
         \<and> (\<exists>img. image_files d (anno_stem af @ ''.jpg'') = Some img
                \<and> out_files st ip = Some (image_bytes img))"
  proof
    assume ne: "ls \<noteq> []"
    from anno_lines_nonempty_image [OF ls ne] obtain img
      where img: "image_files d (anno_stem af @ ''.jpg'') = Some img" by blast
    have af': "af \<in> set (split_files src split)" using af d by (simp add: split_lookup)
    have ls': "anno_lines (split_images src split) af = Inr ls" using ls d by (simp add: split_lookup)
    have img': "split_images src split (anno_stem af @ ''.jpg'') = Some img"
      using img d by (simp add: split_lookup)
    from split_writes_intro [OF af' ls' ne img', of output_dir]
    have wi: "(ip, image_bytes img) \<in> set (run_writes src output_dir)"
      and wl: "(lp, join_lines ls) \<in> set (run_writes src output_dir)"
      using split by (auto simp: lp ip intro: run_writes_intro)
    have "apply_writes (run_writes src output_dir) files0 lp = Some (join_lines ls)"
      using wl
    proof (rule apply_writes_written)
      fix c' assume "(lp, c') \<in> set (run_writes src output_dir)"
      from owner [OF this] show "c' = join_lines ls" by auto
    qed
    moreover have "apply_writes (run_writes src output_dir) files0 ip = Some (image_bytes img)"
      using wi
    proof (rule apply_writes_written)
      fix c' assume "(ip, c') \<in> set (run_writes src output_dir)"
      from owner [OF this] img show "c' = image_bytes img" by auto
    qed
    ultimately show "out_files st lp = Some (join_lines ls)
         \<and> (\<exists>img. image_files d (anno_stem af @ ''.jpg'') = Some img
                \<and> out_files st ip = Some (image_bytes img))"
      using img by (simp add: at_lp at_ip)
  qed
  from ls empty nonempty show ?thesis by blast
qed

lemma yaml_content_text:
  "yaml_content abs_output images annotations =
     ''# DeepFashion2 YOLO Dataset Configuration'' @ newline
     # ''path: '' @ abs_output @ newline
     # ''train: images/train'' @ newline
     # ''val: images/val'' @ newline
     # newline
     # ''# Classes'' @ newline
     # ''nc: 6'' @ newline
     # ''names: ['' @ CHR 0x27 # ''top'' @ CHR 0x27 # '', '' @ CHR 0x27 # ''bottom'' @ CHR 0x27
         # '', '' @ CHR 0x27 # ''shoes'' @ CHR 0x27 # '', '' @ CHR 0x27 # ''dress'' @ CHR 0x27
         # '', '' @ CHR 0x27 # ''outerwear'' @ CHR 0x27 # '', '' @ CHR 0x27 # ''accessory''
         @ CHR 0x27 # '']'' @ newline
     # newline
     # ''# Dataset Info'' @ newline
     # ''# Source: DeepFashion2 (https://github.com/switchablenorms/DeepFashion2)'' @ newline
     # ''# Categories mapped from 13 DeepFashion2 classes to 6 garment types'' @ newline
     # ''# Total images: '' @ str_nat images @ newline
     # ''# Total annotations: '' @ str_nat annotations @ [newline]"
  by (simp add: yaml_content_def CLASSES_def repr_str_list_def str_nat_small digit_char_def)

text \<open>
  C8: where neither split directory exists, as when the source path does not exist, the
  run raises nothing, prints one warning for each split, and writes the manifest as its
  only file; the manifest holds the text below, which ends with the lines
  \<^verbatim>\<open># Total images: 0\<close> and \<^verbatim>\<open># Total annotations: 0\<close>.
\<close>

theorem missing_source_zero_manifest:
  assumes "train_split src = None" and "validation_split src = None"
  shows "\<exists>st manifest.
      convert_deepfashion2_to_yolo abspath src source_dir output_dir files0 dirs0 = Inr st
    \<and> manifest =
        ''# DeepFashion2 YOLO Dataset Configuration'' @ newline
        # ''path: '' @ abspath output_dir @ newline
        # ''train: images/train'' @ newline
        # ''val: images/val'' @ newline
        # newline
        # ''# Classes'' @ newline
        # ''nc: 6'' @ newline
        # ''names: ['' @ CHR 0x27 # ''top'' @ CHR 0x27 # '', '' @ CHR 0x27 # ''bottom'' @ CHR 0x27
            # '', '' @ CHR 0x27 # ''shoes'' @ CHR 0x27 # '', '' @ CHR 0x27 # ''dress'' @ CHR 0x27
            # '', '' @ CHR 0x27 # ''outerwear'' @ CHR 0x27 # '', '' @ CHR 0x27 # ''accessory''
            @ CHR 0x27 # '']'' @ newline
        # newline
        # ''# Dataset Info'' @ newline
        # ''# Source: DeepFashion2 (https://github.com/switchablenorms/DeepFashion2)'' @ newline
        # ''# Categories mapped from 13 DeepFashion2 classes to 6 garment types'' @ newline
        # ''# Total images: 0'' @ newline
        # ''# Total annotations: 0'' @ [newline]
    \<and> out_files st = files0(output_dir @ ''/data.yaml'' \<mapsto> manifest)
    \<and> write_log st = [(output_dir @ ''/data.yaml'', manifest)]
    \<and> out_dirs st = dirs0 \<union> output_dirs output_dir
    \<and> stdout st =
         [''Converting DeepFashion2 from '' @ source_dir @ '' to YOLO format...'',
          ''Warning: '' @ source_dir @ ''/train/annos not found, skipping train split'',
          ''Warning: '' @ source_dir @ ''/validation/annos not found, skipping validation split'',
          newline # check_mark @ '' Conversion complete!'',
          ''   - Total images: 0'',
          ''   - Total annotations: 0'',
          ''   - Output directory: '' @ output_dir,
          ''   - data.yaml created'']
    \<and> total_images st = 0 \<and> total_annotations st = 0"
  using assms
  by (simp add: convert_deepfashion2_to_yolo_def process_split_def lookup_split_def Let_def
      py_print_def makedirs_def write_file_def yaml_content_text str_nat_small digit_char_def
      output_dirs_def dirs_made_def Un_ac)

lemma parent_dirs_out:
  "parent_dirs ''out/images/train'' = [''out'', ''out/images'']"
  "parent_dirs ''out/images/val'' = [''out'', ''out/images'']"
  "parent_dirs ''out/labels/train'' = [''out'', ''out/labels'']"
  "parent_dirs ''out/labels/val'' = [''out'', ''out/labels'']"
  by (simp_all add: parent_dirs_def)

lemma output_dirs_out:
  "output_dirs ''out'' = {''out'', ''out/images'', ''out/images/train'', ''out/images/val'',
                        ''out/labels'', ''out/labels/train'', ''out/labels/val''}"
  by (simp add: output_dirs_def dirs_made_def parent_dirs_out insert_commute)

theorem missing_source_zero_manifest_witness:
  "\<exists>st. convert_deepfashion2_to_yolo (\<lambda>p. ''/home/user/'' @ p)
          \<lparr>train_split = None, validation_split = None\<rparr> ''deepfashion2'' ''out'' Map.empty {}
        = Inr st
     \<and> dom (out_files st) = {''out/data.yaml''}
     \<and> out_files st ''out/data.yaml'' =
         Some (''# DeepFashion2 YOLO Dataset Configuration'' @ newline
           # ''path: /home/user/out'' @ newline
           # ''train: images/train'' @ newline
           # ''val: images/val'' @ newline
           # newline
           # ''# Classes'' @ newline
           # ''nc: 6'' @ newline
           # ''names: ['' @ CHR 0x27 # ''top'' @ CHR 0x27 # '', '' @ CHR 0x27 # ''bottom'' @ CHR 0x27
               # '', '' @ CHR 0x27 # ''shoes'' @ CHR 0x27 # '', '' @ CHR 0x27 # ''dress'' @ CHR 0x27
               # '', '' @ CHR 0x27 # ''outerwear'' @ CHR 0x27 # '', '' @ CHR 0x27 # ''accessory''
               @ CHR 0x27 # '']'' @ newline
           # newline
           # ''# Dataset Info'' @ newline
           # ''# Source: DeepFashion2 (https://github.com/switchablenorms/DeepFashion2)'' @ newline
           # ''# Categories mapped from 13 DeepFashion2 classes to 6 garment types'' @ newline
           # ''# Total images: 0'' @ newline
           # ''# Total annotations: 0'' @ [newline])
     \<and> total_images st = 0 \<and> total_annotations st = 0
     \<and> stdout st ! 1 = ''Warning: deepfashion2/train/annos not found, skipping train split''
     \<and> stdout st ! 2
         = ''Warning: deepfashion2/validation/annos not found, skipping validation split''
     \<and> out_dirs st = {''out'', ''out/images'', ''out/images/train'', ''out/images/val'',
                        ''out/labels'', ''out/labels/train'', ''out/labels/val''}"
proof -
  have none: "train_split \<lparr>train_split = None, validation_split = None\<rparr> = None"
    "validation_split \<lparr>train_split = None, validation_split = None\<rparr> = None"
    by simp_all
  from missing_source_zero_manifest
      [OF none, of "\<lambda>p. ''/home/user/'' @ p" "''deepfashion2''" "''out''" Map.empty "{}"]
  obtain st manifest where
    "convert_deepfashion2_to_yolo (\<lambda>p. ''/home/user/'' @ p)
          \<lparr>train_split = None, validation_split = None\<rparr> ''deepfashion2'' ''out'' Map.empty {}
        = Inr st"
    and "out_files st = Map.empty(''out'' @ ''/data.yaml'' \<mapsto> manifest)"
    and "manifest = ''# DeepFashion2 YOLO Dataset Configuration'' @ newline
        # ''path: '' @ (''/home/user/'' @ ''out'') @ newline
        # ''train: images/train'' @ newline
        # ''val: images/val'' @ newline
        # newline
        # ''# Classes'' @ newline
        # ''nc: 6'' @ newline
        # ''names: ['' @ CHR 0x27 # ''top'' @ CHR 0x27 # '', '' @ CHR 0x27 # ''bottom'' @ CHR 0x27
            # '', '' @ CHR 0x27 # ''shoes'' @ CHR 0x27 # '', '' @ CHR 0x27 # ''dress'' @ CHR 0x27
            # '', '' @ CHR 0x27 # ''outerwear'' @ CHR 0x27 # '', '' @ CHR 0x27 # ''accessory''
            @ CHR 0x27 # '']'' @ newline
        # newline
        # ''# Dataset Info'' @ newline
        # ''# Source: DeepFashion2 (https://github.com/switchablenorms/DeepFashion2)'' @ newline
        # ''# Categories mapped from 13 DeepFashion2 classes to 6 garment types'' @ newline
        # ''# Total images: 0'' @ newline
        # ''# Total annotations: 0'' @ [newline]"
    and "out_dirs st = {} \<union> output_dirs ''out''"
    and "stdout st =
         [''Converting DeepFashion2 from '' @ ''deepfashion2'' @ '' to YOLO format...'',
          ''Warning: '' @ ''deepfashion2'' @ ''/train/annos not found, skipping train split'',
          ''Warning: '' @ ''deepfashion2'' @ ''/validation/annos not found, skipping validation split'',
          newline # check_mark @ '' Conversion complete!'',
          ''   - Total images: 0'',
          ''   - Total annotations: 0'',
          ''   - Output directory: '' @ ''out'',
          ''   - data.yaml created'']"
    and "total_images st = 0" and "total_annotations st = 0"
    by blast
  then show ?thesis by (simp add: output_dirs_out)
qed

lemma scenario_lines:
  "convert_items 200 400
     [(''item1'', PDict [(''category_name'', PStr ''short sleeve top''),
                         (''bounding_box'', PList [PInt 10, PInt 20, PInt 110, PInt 220])])] [] 0
   = Inr ([''0 0.300000 0.300000 0.500000 0.500000''], 1)"
proof -
  have m: "map_of CATEGORY_MAPPING ''short sleeve top'' = Some 0"
    by (simp add: CATEGORY_MAPPING_def)
  have "convert_instance 200 400
     (PDict [(''category_name'', PStr ''short sleeve top''),
             (''bounding_box'', PList [PInt 10, PInt 20, PInt 110, PInt 220])])
     = Inr (Some ''0 0.300000 0.300000 0.500000 0.500000'')"
    by (simp add: convert_instance_bbox [OF _ m] yolo_box_int
        round_double_three_tenths round_double_half format_6f_three_tenths
        format_6f_half in_bounds_def format_label_def str_int_def str_nat_small digit_char_def
        del: format_6f.simps)
  then show ?thesis by simp
qed

lemma bag_lines:
  "convert_items 200 400
     [(''source'', PStr ''shop''),
      (''item1'', PDict [(''category_name'', PStr ''bag''),
                         (''bounding_box'', PList [PInt 10, PInt 20, PInt 110, PInt 220])])] [] 0
   = Inr ([], 0)"
proof -
  have "map_of CATEGORY_MAPPING ''bag'' = None" by (simp add: CATEGORY_MAPPING_def)
  then have "convert_instance 200 400
     (PDict [(''category_name'', PStr ''bag''),
             (''bounding_box'', PList [PInt 10, PInt 20, PInt 110, PInt 220])]) = Inr None"
    by (intro convert_instance_unmapped) simp_all
  then show ?thesis by simp
qed

theorem no_empty_label_witness:
  "\<exists>st. convert_deepfashion2_to_yolo (\<lambda>p. ''/home/user/'' @ p)
          \<lparr>train_split = Some
             \<lparr>anno_files =
                [\<lparr>anno_stem = ''000001'',
                  anno_json = Some (PDict
                    [(''source'', PStr ''shop''),
                     (''item1'', PDict [(''category_name'', PStr ''bag''),
                        (''bounding_box'', PList [PInt 10, PInt 20, PInt 110, PInt 220])])])\<rparr>,
                 \<lparr>anno_stem = ''000002'',
                  anno_json = Some (PDict
                    [(''item1'', PDict [(''category_name'', PStr ''short sleeve top''),
                        (''bounding_box'', PList [PInt 10, PInt 20, PInt 110, PInt 220])])])\<rparr>],
              image_files =
                [''000001.jpg'' \<mapsto> \<lparr>image_bytes = ''JFIF1'', image_size = Inr (200, 400)\<rparr>,
                 ''000002.jpg'' \<mapsto> \<lparr>image_bytes = ''JFIF2'', image_size = Inr (200, 400)\<rparr>]\<rparr>,
           validation_split = None\<rparr> ''deepfashion2'' ''out'' Map.empty {}
        = Inr st
     \<and> out_files st ''out/labels/train/000001.txt'' = None
     \<and> out_files st ''out/images/train/000001.jpg'' = None
     \<and> out_files st ''out/labels/train/000002.txt'' = Some ''0 0.300000 0.300000 0.500000 0.500000''
     \<and> out_files st ''out/images/train/000002.jpg'' = Some ''JFIF2''"
proof -
  define a1 where "a1 = \<lparr>anno_stem = ''000001'',
                  anno_json = Some (PDict
                    [(''source'', PStr ''shop''),
                     (''item1'', PDict [(''category_name'', PStr ''bag''),
                        (''bounding_box'', PList [PInt 10, PInt 20, PInt 110, PInt 220])])])\<rparr>"
  define a2 where "a2 = \<lparr>anno_stem = ''000002'',
                  anno_json = Some (PDict
                    [(''item1'', PDict [(''category_name'', PStr ''short sleeve top''),
                        (''bounding_box'', PList [PInt 10, PInt 20, PInt 110, PInt 220])])])\<rparr>"
  define imgs where "imgs =
                [''000001.jpg'' \<mapsto> \<lparr>image_bytes = ''JFIF1'', image_size = Inr (200, 400)\<rparr>,
                 ''000002.jpg'' \<mapsto> \<lparr>image_bytes = ''JFIF2'', image_size = Inr (200 :: nat, 400 :: nat)\<rparr>]"
  define d where "d = \<lparr>anno_files = [a1, a2], image_files = imgs\<rparr>"
  define src where "src = \<lparr>train_split = Some d, validation_split = None\<rparr>"
  have l1: "anno_lines imgs a1 = Inr []"
    by (simp add: anno_lines_def a1_def imgs_def py_items_def bag_lines del: convert_items.simps)
  have l2: "anno_lines imgs a2 = Inr [''0 0.300000 0.300000 0.500000 0.500000'']"
    by (simp add: anno_lines_def a2_def imgs_def py_items_def scenario_lines
        del: convert_items.simps)
  have "split_lines src ''train'' = Inr [[], [''0 0.300000 0.300000 0.500000 0.500000'']]"
    by (simp add: split_lines_def split_files_def split_images_def lookup_split_def src_def d_def
        l1 l2)
  moreover have "split_lines src ''validation'' = Inr []"
    by (simp add: split_lines_def split_files_def split_images_def lookup_split_def src_def)
  ultimately obtain st where
    run: "convert_deepfashion2_to_yolo (\<lambda>p. ''/home/user/'' @ p) src ''deepfashion2'' ''out''
            Map.empty {} = Inr st"
    by (simp add: convert_eq)
  have look: "lookup_split src ''train'' = Some d" by (simp add: lookup_split_def src_def)
  have stems: "distinct (map anno_stem (anno_files d))" by (simp add: d_def a1_def a2_def)
  have t: "''train'' \<in> {''train'', ''validation''}" by simp
  have "out_files st ''out/labels/train/000001.txt'' = None
     \<and> out_files st ''out/images/train/000001.jpg'' = None"
    using no_empty_label [OF run t look stems, of a1 "''out/labels/train/000001.txt''"
        "''out/images/train/000001.jpg''"] l1
    by (simp add: d_def a1_def label_path_def image_out_path_def yolo_split_name_def)
  moreover have "out_files st ''out/labels/train/000002.txt''
        = Some ''0 0.300000 0.300000 0.500000 0.500000''
     \<and> out_files st ''out/images/train/000002.jpg'' = Some ''JFIF2''"
    using no_empty_label [OF run t look stems, of a2 "''out/labels/train/000002.txt''"
        "''out/images/train/000002.jpg''"] l2
    by (simp add: d_def a2_def imgs_def label_path_def image_out_path_def yolo_split_name_def)
  ultimately show ?thesis
    using run unfolding src_def d_def a1_def a2_def imgs_def by blast
qed

section \<open>Counters and reruns\<close>

lemma split_files_lookup:
  assumes "af \<in> set (split_files src split)"
  obtains d where "lookup_split src split = Some d"
  using assms by (cases "lookup_split src split") (auto simp: split_files_def)

lemma wf_source_split:
  assumes "wf_source src" and "split \<in> {''train'', ''validation''}"
  shows "distinct (map anno_stem (split_files src split))"
  using assms by (auto simp: wf_source_def)

lemma run_writes_functional:
  assumes wf: "wf_source src"
    and c: "(p, c) \<in> set (run_writes src output_dir)"
    and c': "(p, c') \<in> set (run_writes src output_dir)"
  shows "c' = c"
proof -
  from run_writes_member [OF c] obtain split af ls img where
    s: "split \<in> {''train'', ''validation''}"
    and af: "af \<in> set (split_files src split)"
    and ls: "anno_lines (split_images src split) af = Inr ls"
    and img: "split_images src split (anno_stem af @ ''.jpg'') = Some img"
    and pc: "p = image_out_path output_dir (yolo_split_name split) (anno_stem af) \<and> c = image_bytes img
             \<or> p = label_path output_dir (yolo_split_name split) (anno_stem af) \<and> c = join_lines ls"
    by blast
  from af obtain d where d: "lookup_split src split = Some d" by (rule split_files_lookup)
  have stems: "distinct (map anno_stem (anno_files d))"
    using wf_source_split [OF wf s] d by (simp add: split_lookup)
  have af_d: "af \<in> set (anno_files d)" using af d by (simp add: split_lookup)
  have p: "p = label_path output_dir (yolo_split_name split) (anno_stem af)
            \<or> p = image_out_path output_dir (yolo_split_name split) (anno_stem af)"
    using pc by blast
  from run_writes_owner [OF s d stems af_d c' p] obtain ls' img' where
    "anno_lines (image_files d) af = Inr ls'"
    and "image_files d (anno_stem af @ ''.jpg'') = Some img'"
    and l: "p = label_path output_dir (yolo_split_name split) (anno_stem af) \<longrightarrow> c' = join_lines ls'"
    and i: "p = image_out_path output_dir (yolo_split_name split) (anno_stem af)
                \<longrightarrow> c' = image_bytes img'"
    by blast
  with ls img d have "ls' = ls" "img' = img" by (simp_all add: split_lookup)
  with pc l i label_path_neq_image show ?thesis by metis
qed

lemma apply_writes_functional:
  assumes "\<And>p c c'. (p, c) \<in> set ws \<Longrightarrow> (p, c') \<in> set ws \<Longrightarrow> c' = c"
  shows "apply_writes ws m p = (if p \<in> fst ` set ws then Some (the (map_of ws p)) else m p)"
proof (cases "p \<in> fst ` set ws")
  case True
  then obtain c where c: "(p, c) \<in> set ws" by auto
  then have "map_of ws p \<noteq> None" by (simp add: map_of_eq_None_iff image_iff) force
  then obtain c'' where m: "map_of ws p = Some c''" by auto
  then have "(p, c'') \<in> set ws" by (rule map_of_SomeD)
  with assms c have "c'' = c" by blast
  have u: "\<And>c'. (p, c') \<in> set ws \<Longrightarrow> c' = c" using assms c by blast
  have "apply_writes ws m p = Some c"
    using c u by (rule apply_writes_written)
  with True m \<open>c'' = c\<close> show ?thesis by simp
next
  case False
  then show ?thesis by (simp add: apply_writes_unwritten)
qed

lemma apply_writes_set_cong:
  assumes "\<And>p c c'. (p, c) \<in> set ws \<Longrightarrow> (p, c') \<in> set ws \<Longrightarrow> c' = c"
    and "set ws' = set ws"
  shows "apply_writes ws' m p = apply_writes ws m p"
proof (cases "p \<in> fst ` set ws")
  case True
  then obtain c where c: "(p, c) \<in> set ws" by auto
  have u: "\<And>c'. (p, c') \<in> set ws \<Longrightarrow> c' = c" using assms(1) c by blast
  have "apply_writes ws m p = Some c" using c u by (rule apply_writes_written)
  moreover have "apply_writes ws' m p = Some c"
    using c u unfolding assms(2) [symmetric] by (rule apply_writes_written)
  ultimately show ?thesis by simp
next
  case False
  then show ?thesis using assms(2) by (simp add: apply_writes_unwritten)
qed

lemma collect_lines_eq:
  assumes "\<And>af. af \<in> set afs \<Longrightarrow> \<exists>ls. anno_lines images af = Inr ls"
  shows "collect_lines images afs = Inr (map (lines_of images) afs)"
  using assms
proof (induction afs)
  case Nil
  then show ?case by simp
next
  case (Cons a afs)
  from Cons.prems [of a] obtain ls where a: "anno_lines images a = Inr ls" by auto
  have "collect_lines images afs = Inr (map (lines_of images) afs)"
    using Cons.prems by (intro Cons.IH) simp
  with a show ?case by (simp add: lines_of_def)
qed

lemma collect_lines_map:
  assumes "collect_lines images afs = Inr lss"
  shows "lss = map (lines_of images) afs"
proof -
  have "collect_lines images afs = Inr (map (lines_of images) afs)"
    using collect_lines_member [OF assms] by (rule collect_lines_eq)
  with assms show ?thesis by simp
qed

lemma count_images_set:
  assumes "distinct afs"
  shows "count_images (map (lines_of images) afs) = card {af \<in> set afs. lines_of images af \<noteq> []}"
proof -
  have "count_images (map (lines_of images) afs)
          = length (filter (\<lambda>af. lines_of images af \<noteq> []) afs)"
    by (simp add: count_images_def filter_map o_def)
  also have "\<dots> = card ({af. lines_of images af \<noteq> []} \<inter> set afs)"
    using assms by (rule distinct_length_filter)
  also have "{af. lines_of images af \<noteq> []} \<inter> set afs = {af \<in> set afs. lines_of images af \<noteq> []}"
    by auto
  finally show ?thesis .
qed

lemma count_annotations_set:
  assumes "distinct afs"
  shows "count_annotations (map (lines_of images) afs) = (\<Sum>af\<in>set afs. length (lines_of images af))"
proof -
  have "count_annotations (map (lines_of images) afs)
          = sum_list (map (\<lambda>af. length (lines_of images af)) afs)"
    by (simp add: count_annotations_def o_def)
  also have "\<dots> = (\<Sum>af\<in>set afs. length (lines_of images af))"
    using assms by (rule sum_list_distinct_conv_sum_set)
  finally show ?thesis .
qed

lemma wf_source_distinct:
  assumes "wf_source src" and "split \<in> {''train'', ''validation''}"
  shows "distinct (split_files src split)"
  using wf_source_split [OF assms] by (simp add: distinct_map)

lemma same_source_split:
  assumes "same_source src src'" and "split \<in> {''train'', ''validation''}"
  shows "set (split_files src' split) = set (split_files src split)"
    and "split_images src' split = split_images src split"
proof -
  from assms have r: "rel_option same_files (lookup_split src split) (lookup_split src' split)"
    by (auto simp: same_source_def lookup_split_def)
  then show "set (split_files src' split) = set (split_files src split)"
    by (cases "lookup_split src split"; cases "lookup_split src' split")
      (auto simp: split_files_def same_files_def)
  from r show "split_images src' split = split_images src split"
    by (cases "lookup_split src split"; cases "lookup_split src' split")
      (auto simp: split_images_def same_files_def)
qed

lemma same_source_writes:
  assumes "same_source src src'" and "split \<in> {''train'', ''validation''}"
  shows "set (split_writes src' output_dir split) = set (split_writes src output_dir split)"
  using same_source_split [OF assms] by (simp add: split_writes_def)

lemma same_source_run_writes:
  assumes "same_source src src'"
  shows "set (run_writes src' output_dir) = set (run_writes src output_dir)"
  using same_source_writes [OF assms] by (simp add: run_writes_def)

lemma split_lines_InrD:
  assumes "split_lines src split = Inr lss"
  shows "lss = map (lines_of (split_images src split)) (split_files src split)"
    and "\<And>af. af \<in> set (split_files src split)
           \<Longrightarrow> \<exists>ls. anno_lines (split_images src split) af = Inr ls"
  using assms collect_lines_map collect_lines_member unfolding split_lines_def by blast+

text \<open>The lines, and so the counters, of a split do not depend on the order of the listing.\<close>

lemma same_source_lines:
  assumes same: "same_source src src'" and wf: "wf_source src" and wf': "wf_source src'"
    and s: "split \<in> {''train'', ''validation''}"
    and l: "split_lines src split = Inr lss"
  shows "\<exists>lss'. split_lines src' split = Inr lss' \<and> count_images lss' = count_images lss
           \<and> count_annotations lss' = count_annotations lss"
proof -
  let ?im = "split_images src split"
  note eq = same_source_split [OF same s]
  have lss: "lss = map (lines_of ?im) (split_files src split)"
    using l by (rule split_lines_InrD)
  have "\<And>af. af \<in> set (split_files src' split) \<Longrightarrow> \<exists>ls. anno_lines ?im af = Inr ls"
    using split_lines_InrD(2) [OF l] unfolding eq(1) .
  then have l': "split_lines src' split = Inr (map (lines_of ?im) (split_files src' split))"
    unfolding split_lines_def eq(2) by (rule collect_lines_eq)
  have "count_images (map (lines_of ?im) (split_files src' split)) = count_images lss"
    unfolding lss
    by (simp add: count_images_set wf_source_distinct [OF wf s] wf_source_distinct [OF wf' s] eq(1))
  moreover have "count_annotations (map (lines_of ?im) (split_files src' split))
      = count_annotations lss"
    unfolding lss
    by (simp add: count_annotations_set wf_source_distinct [OF wf s] wf_source_distinct [OF wf' s]
        eq(1))
  ultimately show ?thesis using l' by blast
qed

lemma yaml_not_written: "output_dir @ ''/data.yaml'' \<notin> fst ` set (run_writes src output_dir)"
proof
  assume "output_dir @ ''/data.yaml'' \<in> fst ` set (run_writes src output_dir)"
  then obtain c where "(output_dir @ ''/data.yaml'', c) \<in> set (run_writes src output_dir)"
    by auto
  from run_writes_member [OF this] yaml_neq_label yaml_neq_image show False by metis
qed

text \<open>
  The files after a run over a reordered listing of the same tree, started from any
  files that agree with \<open>m\<close> outside the paths the run writes.
\<close>

lemma rerun_files:
  assumes wf: "wf_source src" and same: "same_source src src'"
    and m': "\<And>p. p \<notin> fst ` set (run_writes src output_dir) \<Longrightarrow> p \<noteq> output_dir @ ''/data.yaml''
                \<Longrightarrow> m' p = m p"
  shows "(apply_writes (run_writes src' output_dir) m')(output_dir @ ''/data.yaml'' \<mapsto> y)
       = (apply_writes (run_writes src output_dir) m)(output_dir @ ''/data.yaml'' \<mapsto> y)"
proof
  fix p
  let ?W = "run_writes src output_dir" and ?W' = "run_writes src' output_dir"
  have f: "\<And>p c c'. (p, c) \<in> set ?W \<Longrightarrow> (p, c') \<in> set ?W \<Longrightarrow> c' = c"
    using wf by (rule run_writes_functional)
  have s: "set ?W' = set ?W" using same by (rule same_source_run_writes)
  show "((apply_writes ?W' m')(output_dir @ ''/data.yaml'' \<mapsto> y)) p
      = ((apply_writes ?W m)(output_dir @ ''/data.yaml'' \<mapsto> y)) p"
  proof (cases "p = output_dir @ ''/data.yaml''")
    case True
    then show ?thesis by simp
  next
    case False
    have "apply_writes ?W' m' p = apply_writes ?W m' p"
      using f s by (rule apply_writes_set_cong)
    also have "\<dots> = apply_writes ?W m p"
      using m' [of p] False by (simp add: apply_writes_functional [OF f])
    finally show ?thesis using False by simp
  qed
qed

text \<open>
  C9: the result of a run is a function of its inputs, and it does not depend on the
  order in which the annotation files are listed nor on what a previous run left in the
  output location.  Where a run completes, a second run over the same source tree
  (listed in any order) with the same output path, started from the output of the first
  run or from the files the first run started from, completes too and leaves the same
  files (every label file, every image copy and the manifest) and the same counters.
\<close>

theorem deterministic_rerun:
  assumes run: "convert_deepfashion2_to_yolo abspath src source_dir output_dir files0 dirs0 = Inr st1"
    and wf: "wf_source src" and wf': "wf_source src'"
    and same: "same_source src src'"
  shows "(\<exists>st2. convert_deepfashion2_to_yolo abspath src' source_dir output_dir
                  (out_files st1) (out_dirs st1) = Inr st2
            \<and> out_files st2 = out_files st1 \<and> out_dirs st2 = out_dirs st1
            \<and> total_images st2 = total_images st1
            \<and> total_annotations st2 = total_annotations st1)
       \<and> (\<exists>st3. convert_deepfashion2_to_yolo abspath src' source_dir output_dir files0 dirs0
                   = Inr st3
            \<and> out_files st3 = out_files st1 \<and> out_dirs st3 = out_dirs st1
            \<and> total_images st3 = total_images st1
            \<and> total_annotations st3 = total_annotations st1)"
proof -
  let ?y = "output_dir @ ''/data.yaml''"
  let ?W = "run_writes src output_dir" and ?W' = "run_writes src' output_dir"
  from run obtain lt lv where lt: "split_lines src ''train'' = Inr lt"
    and lv: "split_lines src ''validation'' = Inr lv"
    unfolding convert_eq by (auto simp: ebind_eq_Inr)
  define ni where "ni = count_images lt + count_images lv"
  define na where "na = count_annotations lt + count_annotations lv"
  define dirs where "dirs = dirs0 \<union> output_dirs output_dir"
  define Y where "Y = yaml_content (abspath output_dir) ni na"
  have st1: "out_files st1 = (apply_writes ?W files0)(?y \<mapsto> Y)" "out_dirs st1 = dirs"
    "total_images st1 = ni" "total_annotations st1 = na"
    using run unfolding convert_eq lt lv
    by (auto simp: run_writes_def ni_def na_def dirs_def Y_def)
  from same_source_lines [OF same wf wf' _ lt] obtain lt' where
    lt': "split_lines src' ''train'' = Inr lt'" "count_images lt' = count_images lt"
    "count_annotations lt' = count_annotations lt"
    by auto
  from same_source_lines [OF same wf wf' _ lv] obtain lv' where
    lv': "split_lines src' ''validation'' = Inr lv'" "count_images lv' = count_images lv"
    "count_annotations lv' = count_annotations lv"
    by auto
  have again: "(apply_writes ?W' (out_files st1))(?y \<mapsto> Y) = out_files st1"
    unfolding st1(1)
    by (rule rerun_files [OF wf same]) (simp add: apply_writes_unwritten)
  have fresh: "(apply_writes ?W' files0)(?y \<mapsto> Y) = out_files st1"
    unfolding st1(1) by (rule rerun_files [OF wf same]) simp
  have d: "dirs \<union> output_dirs output_dir = dirs"
    by (auto simp: dirs_def)
  have "\<exists>st2. convert_deepfashion2_to_yolo abspath src' source_dir output_dir
                  (out_files st1) (out_dirs st1) = Inr st2
            \<and> out_files st2 = out_files st1 \<and> out_dirs st2 = out_dirs st1
            \<and> total_images st2 = total_images st1
            \<and> total_annotations st2 = total_annotations st1"
    unfolding convert_eq lt'(1) lv'(1)
    using again d
    by (simp add: lt' lv' st1(2,3,4) run_writes_def ni_def [symmetric] na_def [symmetric]
        Y_def [symmetric])
  moreover have "\<exists>st3. convert_deepfashion2_to_yolo abspath src' source_dir output_dir files0 dirs0
                   = Inr st3
            \<and> out_files st3 = out_files st1 \<and> out_dirs st3 = out_dirs st1
            \<and> total_images st3 = total_images st1
            \<and> total_annotations st3 = total_annotations st1"
    unfolding convert_eq lt'(1) lv'(1)
    using fresh
    by (simp add: lt' lv' st1(2,3,4) run_writes_def ni_def [symmetric] na_def [symmetric]
        Y_def [symmetric] dirs_def)
  ultimately show ?thesis by blast
qed

lemma digit_char_neq_newline: "digit_char d \<noteq> newline"
proof -
  have "digit_char d \<in> set ''0123456789''"
    unfolding digit_char_def by (rule nth_mem) simp
  moreover have "newline \<notin> set ''0123456789''" by (simp add: newline_def)
  ultimately show ?thesis by metis
qed

lemma newline_neq_digit_char: "newline \<noteq> digit_char d"
  using digit_char_neq_newline [of d] by (rule not_sym)

lemma newline_str_nat: "newline \<notin> set (str_nat n)"
proof (induction n rule: str_nat.induct)
  case (1 n)
  show ?case
  proof (cases "n < 10")
    case True
    then show ?thesis using digit_char_neq_newline [of n] by (subst str_nat.simps) auto
  next
    case False
    then show ?thesis
      using 1 digit_char_neq_newline [of "n mod 10"] by (subst str_nat.simps) auto
  qed
qed

lemma newline_str_int: "newline \<notin> set (str_int i)"
  using newline_str_nat by (auto simp: str_int_def newline_def)

lemma newline_frac6: "newline \<notin> set (frac6 m)"
  by (simp add: frac6_def newline_neq_digit_char)

lemma newline_format_6f: "newline \<notin> set (format_6f v)"
proof (cases v)
  case (Fin r)
  then show ?thesis
    using newline_str_nat newline_frac6 by (auto simp: Let_def) (simp_all add: newline_def)
qed (simp_all add: newline_def)

lemma newline_format_label: "newline \<notin> set (format_label c x y w h)"
  using newline_str_int newline_format_6f by (auto simp: format_label_def) (simp_all add: newline_def)

lemma convert_instance_no_newline:
  assumes "convert_instance w h item = Inr (Some line)"
  shows "newline \<notin> set line"
  using convert_instance_SomeD [OF assms] newline_format_label by blast

lemma convert_items_list_all:
  assumes "\<And>item line. convert_instance w h item = Inr (Some line) \<Longrightarrow> P line"
    and "convert_items w h items acc n = Inr (lines, n')"
    and "list_all P acc"
  shows "list_all P lines"
  using assms(2,3)
proof (induction items arbitrary: acc n)
  case Nil
  then show ?case by simp
next
  case (Cons kv items)
  obtain k item where kv: "kv = (k, item)" by (cases kv) auto
  show ?case
  proof (cases "k = ''source''")
    case True
    with Cons kv show ?thesis by simp
  next
    case False
    show ?thesis
    proof (cases "convert_instance w h item")
      case (Inl e)
      with Cons.prems kv False show ?thesis by simp
    next
      case (Inr res)
      show ?thesis
      proof (cases res)
        case None
        with Cons Inr kv False show ?thesis by simp
      next
        case (Some line)
        with Inr have "convert_instance w h item = Inr (Some line)" by simp
        then have "P line" by (rule assms(1))
        with Cons.prems(2) have "list_all P (acc @ [line])" by simp
        moreover have "convert_items w h items (acc @ [line]) (n + 1) = Inr (lines, n')"
          using Cons.prems(1) kv False Inr Some by simp
        ultimately show ?thesis by (rule Cons.IH [rotated])
      qed
    qed
  qed
qed

lemma anno_lines_no_newline:
  assumes "anno_lines images af = Inr ls"
  shows "list_all (\<lambda>l. newline \<notin> set l) ls"
proof -
  have "\<And>w h items ls n. convert_items w h items [] 0 = Inr (ls, n)
          \<Longrightarrow> list_all (\<lambda>l. newline \<notin> set l) ls"
    by (rule convert_items_list_all [where P = "\<lambda>l. newline \<notin> set l" and acc = "[]"])
      (simp_all add: convert_instance_no_newline)
  with assms show ?thesis
    by (auto simp: anno_lines_def ebind_eq_Inr split: option.splits sum.splits prod.splits)
qed

lemma line_count_join_lines:
  assumes "ls \<noteq> []" and "list_all (\<lambda>l. newline \<notin> set l) ls"
  shows "line_count (join_lines ls) = length ls"
  using assms
proof (induction ls rule: join_lines.induct)
  case 1
  then show ?case by simp
next
  case (2 l)
  then have "filter (\<lambda>c. c = newline) l = []" by (auto simp: filter_empty_conv)
  then show ?case by (simp add: line_count_def)
next
  case (3 l v va)
  then have "filter (\<lambda>c. c = newline) l = []" by (auto simp: filter_empty_conv)
  moreover have "line_count (join_lines (v # va)) = length (v # va)"
    using 3 by simp
  ultimately show ?case by (simp add: line_count_def)
qed

lemma lines_of_nonempty:
  assumes "lines_of images af \<noteq> []"
  shows "anno_lines images af = Inr (lines_of images af)"
  using assms by (cases "anno_lines images af") (simp_all add: lines_of_def)

lemma prefix_out: "prefix (output_dir @ a) (output_dir @ b) \<longleftrightarrow> prefix a b"
  by simp

lemma label_path_prefix: "prefix (output_dir @ ''/labels/'') (label_path output_dir ys s)"
  by (simp add: label_path_def)

lemma image_path_no_prefix: "\<not> prefix (output_dir @ ''/labels/'') (image_out_path output_dir ys s)"
  by (simp add: image_out_path_def)

lemma yaml_no_prefix: "\<not> prefix (output_dir @ ''/labels/'') (output_dir @ ''/data.yaml'')"
  by simp

text \<open>The label file of an annotation file that yields lines, after a complete run.\<close>

lemma producing_label_file:
  assumes wf: "wf_source src" and s: "split \<in> {''train'', ''validation''}"
    and af: "af \<in> producing src split"
  shows "apply_writes (run_writes src output_dir) m
           (label_path output_dir (yolo_split_name split) (anno_stem af))
         = Some (join_lines (lines_of (split_images src split) af))"
proof -
  let ?ls = "lines_of (split_images src split) af"
  from af have in_files: "af \<in> set (split_files src split)" and ne: "?ls \<noteq> []"
    by (simp_all add: producing_def)
  have l: "anno_lines (split_images src split) af = Inr ?ls"
    using ne by (rule lines_of_nonempty)
  from anno_lines_nonempty_image [OF l ne] obtain img
    where img: "split_images src split (anno_stem af @ ''.jpg'') = Some img" by blast
  have w: "(label_path output_dir (yolo_split_name split) (anno_stem af), join_lines ?ls)
             \<in> set (run_writes src output_dir)"
    using s split_writes_intro(2) [OF in_files l ne img] by (rule run_writes_intro)
  show ?thesis
    using w
  proof (rule apply_writes_written)
    fix c'
    assume "(label_path output_dir (yolo_split_name split) (anno_stem af), c')
              \<in> set (run_writes src output_dir)"
    with wf w show "c' = join_lines ?ls" by (rule run_writes_functional)
  qed
qed

lemma label_files_run:
  assumes wf: "wf_source src"
    and fresh: "\<And>p. prefix (output_dir @ ''/labels/'') p \<Longrightarrow> files0 p = None"
  shows "label_files output_dir
           ((apply_writes (run_writes src output_dir) files0)(output_dir @ ''/data.yaml'' \<mapsto> y))
         = (\<lambda>af. label_path output_dir ''train'' (anno_stem af)) ` producing src ''train''
           \<union> (\<lambda>af. label_path output_dir ''val'' (anno_stem af)) ` producing src ''validation''"
    (is "label_files output_dir ?F = ?A \<union> ?B")
proof (rule set_eqI, rule iffI)
  fix p
  assume "p \<in> label_files output_dir ?F"
  then have dom: "?F p \<noteq> None" and pre: "prefix (output_dir @ ''/labels/'') p"
    by (auto simp: label_files_def)
  from pre yaml_no_prefix have ny: "p \<noteq> output_dir @ ''/data.yaml''" by metis
  with dom have "apply_writes (run_writes src output_dir) files0 p \<noteq> None" by simp
  then have "p \<in> fst ` set (run_writes src output_dir)"
    using fresh [OF pre] apply_writes_unwritten [of p "run_writes src output_dir" files0] by metis
  then obtain c where "(p, c) \<in> set (run_writes src output_dir)" by auto
  from run_writes_member [OF this] obtain split af ls where
    s: "split \<in> {''train'', ''validation''}"
    and af: "af \<in> set (split_files src split)"
    and ls: "anno_lines (split_images src split) af = Inr ls" "ls \<noteq> []"
    and p: "p = image_out_path output_dir (yolo_split_name split) (anno_stem af)
            \<or> p = label_path output_dir (yolo_split_name split) (anno_stem af)"
    by blast
  from p pre image_path_no_prefix
  have p': "p = label_path output_dir (yolo_split_name split) (anno_stem af)" by metis
  have "af \<in> producing src split" using af ls by (simp add: producing_def lines_of_def)
  with s p' show "p \<in> ?A \<union> ?B" by (auto simp: yolo_split_name_def)
next
  fix p
  assume "p \<in> ?A \<union> ?B"
  then consider (t) af where "af \<in> producing src ''train''"
        "p = label_path output_dir ''train'' (anno_stem af)"
    | (v) af where "af \<in> producing src ''validation''"
        "p = label_path output_dir ''val'' (anno_stem af)"
    by auto
  then have "\<exists>split af. split \<in> {''train'', ''validation''} \<and> af \<in> producing src split
      \<and> p = label_path output_dir (yolo_split_name split) (anno_stem af)"
  proof cases
    case t
    then show ?thesis
      by (intro exI [of _ "''train''"] exI [of _ af]) (simp add: yolo_split_name_def)
  next
    case v
    then show ?thesis
      by (intro exI [of _ "''validation''"] exI [of _ af]) (simp add: yolo_split_name_def)
  qed
  then obtain split af where s: "split \<in> {''train'', ''validation''}"
    and af: "af \<in> producing src split"
    and p: "p = label_path output_dir (yolo_split_name split) (anno_stem af)"
    by blast
  have "apply_writes (run_writes src output_dir) files0 p \<noteq> None"
    unfolding p by (simp add: producing_label_file [OF wf s af])
  moreover have "p \<noteq> output_dir @ ''/data.yaml''"
    unfolding p using yaml_neq_label by metis
  ultimately have "?F p \<noteq> None" by simp
  then show "p \<in> label_files output_dir ?F"
    unfolding p by (auto simp: label_files_def label_path_prefix)
qed

lemma label_path_inj_on:
  assumes "wf_source src" and "split \<in> {''train'', ''validation''}"
  shows "inj_on (\<lambda>af. label_path output_dir (yolo_split_name split) (anno_stem af))
           (producing src split)"
proof (rule inj_onI)
  fix a b
  assume a: "a \<in> producing src split" and b: "b \<in> producing src split"
    and e: "label_path output_dir (yolo_split_name split) (anno_stem a)
            = label_path output_dir (yolo_split_name split) (anno_stem b)"
  from label_path_inj [OF e yolo_split_name_cases yolo_split_name_cases]
  have "anno_stem a = anno_stem b" by simp
  with wf_source_split [OF assms] a b show "a = b"
    by (auto simp: producing_def intro: distinct_stems)
qed

lemma finite_producing [simp]: "finite (producing src split)"
  by (simp add: producing_def)

lemma card_producing:
  assumes "wf_source src" and "split \<in> {''train'', ''validation''}"
    and "split_lines src split = Inr lss"
  shows "card (producing src split) = count_images lss"
  using split_lines_InrD(1) [OF assms(3)] wf_source_distinct [OF assms(1,2)]
  by (simp add: producing_def count_images_set)

lemma sum_producing:
  assumes "wf_source src" and "split \<in> {''train'', ''validation''}"
    and "split_lines src split = Inr lss"
  shows "(\<Sum>af\<in>producing src split. length (lines_of (split_images src split) af))
           = count_annotations lss"
proof -
  have "(\<Sum>af\<in>producing src split. length (lines_of (split_images src split) af))
      = (\<Sum>af\<in>set (split_files src split). length (lines_of (split_images src split) af))"
    by (rule sum.mono_neutral_left) (auto simp: producing_def)
  then show ?thesis
    using split_lines_InrD(1) [OF assms(3)] wf_source_distinct [OF assms(1,2)]
    by (simp add: count_annotations_set)
qed

lemma producing_line_count:
  assumes wf: "wf_source src" and s: "split \<in> {''train'', ''validation''}"
    and af: "af \<in> producing src split"
  shows "line_count (the (((apply_writes (run_writes src output_dir) m)
            (output_dir @ ''/data.yaml'' \<mapsto> y))
            (label_path output_dir (yolo_split_name split) (anno_stem af))))
         = length (lines_of (split_images src split) af)"
proof -
  let ?ls = "lines_of (split_images src split) af"
  from af have ne: "?ls \<noteq> []" by (simp add: producing_def)
  then have l: "anno_lines (split_images src split) af = Inr ?ls" by (rule lines_of_nonempty)
  have "label_path output_dir (yolo_split_name split) (anno_stem af) \<noteq> output_dir @ ''/data.yaml''"
    using yaml_neq_label by metis
  then have "((apply_writes (run_writes src output_dir) m)(output_dir @ ''/data.yaml'' \<mapsto> y))
            (label_path output_dir (yolo_split_name split) (anno_stem af))
          = Some (join_lines ?ls)"
    by (simp add: producing_label_file [OF wf s af])
  then show ?thesis
    using line_count_join_lines [OF ne anno_lines_no_newline [OF l]] by simp
qed

text \<open>
  Where the stems of each directory are distinct and the output location held no label
  file before the run, the label files under \<^verbatim>\<open>labels/\<close> after the run number the counter
  of images, and their numbers of lines add up to the counter of annotations.
\<close>

lemma label_files_counts:
  assumes run: "convert_deepfashion2_to_yolo abspath src source_dir output_dir files0 dirs0 = Inr st"
    and wf: "wf_source src"
    and fresh: "\<forall>p. prefix (output_dir @ ''/labels/'') p \<longrightarrow> files0 p = None"
  shows "out_files st (output_dir @ ''/data.yaml'')
           = Some (yaml_content (abspath output_dir) (total_images st) (total_annotations st))
    \<and> card (label_files output_dir (out_files st)) = total_images st
    \<and> (\<Sum>p\<in>label_files output_dir (out_files st). line_count (the (out_files st p)))
        = total_annotations st"
proof -
  let ?y = "yaml_content (abspath output_dir) (total_images st) (total_annotations st)"
  let ?labT = "\<lambda>af. label_path output_dir (yolo_split_name ''train'') (anno_stem af)"
  let ?labV = "\<lambda>af. label_path output_dir (yolo_split_name ''validation'') (anno_stem af)"
  let ?A = "?labT ` producing src ''train''" and ?B = "?labV ` producing src ''validation''"
  from convert_InrD [OF run] obtain lt lv where
    lt: "split_lines src ''train'' = Inr lt" and lv: "split_lines src ''validation'' = Inr lv"
    and files: "out_files st = (apply_writes (run_writes src output_dir) files0)
         (output_dir @ ''/data.yaml'' \<mapsto> ?y)"
    and ni: "total_images st = count_images lt + count_images lv"
    and na: "total_annotations st = count_annotations lt + count_annotations lv"
    by blast
  have t: "''train'' \<in> {''train'', ''validation''}"
    and v: "''validation'' \<in> {''train'', ''validation''}" by simp_all
  have lf: "label_files output_dir (out_files st) = ?A \<union> ?B"
    unfolding files using label_files_run [OF wf, of output_dir files0 ?y] fresh
    by (simp add: yolo_split_name_def)
  have disj: "?A \<inter> ?B = {}"
    using label_path_inj [OF _ yolo_split_name_cases yolo_split_name_cases, of output_dir "''train''" _ "''validation''"]
    by (auto simp: yolo_split_name_def)
  have fin: "finite ?A" "finite ?B" by simp_all
  have cardA: "card ?A = count_images lt"
    using card_image [OF label_path_inj_on [OF wf t, of output_dir]] card_producing [OF wf t lt]
    by simp
  have cardB: "card ?B = count_images lv"
    using card_image [OF label_path_inj_on [OF wf v, of output_dir]] card_producing [OF wf v lv]
    by simp
  have c: "card (label_files output_dir (out_files st)) = total_images st"
    unfolding lf ni using card_Un_disjoint [OF fin disj] cardA cardB by simp
  have sumA: "(\<Sum>p\<in>?A. line_count (the (out_files st p))) = count_annotations lt"
  proof -
    have "(\<Sum>p\<in>?A. line_count (the (out_files st p)))
        = (\<Sum>af\<in>producing src ''train''. line_count (the (out_files st (?labT af))))"
      using sum.reindex [OF label_path_inj_on [OF wf t, of output_dir]] by (simp add: o_def)
    also have "\<dots> = (\<Sum>af\<in>producing src ''train''. length (lines_of (split_images src ''train'') af))"
      unfolding files by (rule sum.cong [OF refl]) (rule producing_line_count [OF wf t])
    finally show ?thesis using sum_producing [OF wf t lt] by simp
  qed
  have sumB: "(\<Sum>p\<in>?B. line_count (the (out_files st p))) = count_annotations lv"
  proof -
    have "(\<Sum>p\<in>?B. line_count (the (out_files st p)))
        = (\<Sum>af\<in>producing src ''validation''. line_count (the (out_files st (?labV af))))"
      using sum.reindex [OF label_path_inj_on [OF wf v, of output_dir]] by (simp add: o_def)
    also have "\<dots> = (\<Sum>af\<in>producing src ''validation''.
                         length (lines_of (split_images src ''validation'') af))"
      unfolding files by (rule sum.cong [OF refl]) (rule producing_line_count [OF wf v])
    finally show ?thesis using sum_producing [OF wf v lv] by simp
  qed
  have "(\<Sum>p\<in>?A \<union> ?B. line_count (the (out_files st p)))
        = (\<Sum>p\<in>?A. line_count (the (out_files st p)))
          + (\<Sum>p\<in>?B. line_count (the (out_files st p)))"
    by (rule sum.union_disjoint [OF fin disj])
  then have s: "(\<Sum>p\<in>label_files output_dir (out_files st). line_count (the (out_files st p)))
        = total_annotations st"
    unfolding lf na sumA sumB .
  have "out_files st (output_dir @ ''/data.yaml'') = Some ?y"
    by (subst files) simp
  with c s show ?thesis by blast
qed

lemma two_lines:
  "convert_items 200 400
     [(''item1'', PDict [(''category_name'', PStr ''short sleeve top''),
                         (''bounding_box'', PList [PInt 10, PInt 20, PInt 110, PInt 220])]),
      (''item2'', PDict [(''category_name'', PStr ''skirt''),
                         (''bounding_box'', PList [PInt 10, PInt 20, PInt 110, PInt 220])])] [] 0
   = Inr ([''0 0.300000 0.300000 0.500000 0.500000'',
           ''1 0.300000 0.300000 0.500000 0.500000''], 2)"
proof -
  have m: "map_of CATEGORY_MAPPING ''short sleeve top'' = Some 0"
    and m': "map_of CATEGORY_MAPPING ''skirt'' = Some 1"
    by (simp_all add: CATEGORY_MAPPING_def)
  have "convert_instance 200 400
     (PDict [(''category_name'', PStr ''short sleeve top''),
             (''bounding_box'', PList [PInt 10, PInt 20, PInt 110, PInt 220])])
     = Inr (Some ''0 0.300000 0.300000 0.500000 0.500000'')"
    by (simp add: convert_instance_bbox [OF _ m] yolo_box_int
        round_double_three_tenths round_double_half format_6f_three_tenths
        format_6f_half in_bounds_def format_label_def str_int_def str_nat_small digit_char_def
        del: format_6f.simps)
  moreover have "convert_instance 200 400
     (PDict [(''category_name'', PStr ''skirt''),
             (''bounding_box'', PList [PInt 10, PInt 20, PInt 110, PInt 220])])
     = Inr (Some ''1 0.300000 0.300000 0.500000 0.500000'')"
    by (simp add: convert_instance_bbox [OF _ m'] yolo_box_int
        round_double_three_tenths round_double_half format_6f_three_tenths
        format_6f_half in_bounds_def format_label_def str_int_def str_nat_small digit_char_def
        del: format_6f.simps)
  ultimately show ?thesis by simp
qed

lemma apply_writes_dom:
  assumes "(p, c) \<in> set ws"
  shows "apply_writes ws m p \<noteq> None"
  using assms
proof (induction ws arbitrary: m rule: rev_induct)
  case Nil
  then show ?case by simp
next
  case (snoc w ws)
  obtain q d where w: "w = (q, d)" by (cases w) auto
  have eq: "apply_writes (ws @ [w]) m = (apply_writes ws m)(q \<mapsto> d)"
    by (simp add: apply_writes_append apply_writes_Cons w)
  show ?case
  proof (cases "p = q")
    case True
    then show ?thesis by (simp add: eq)
  next
    case False
    with snoc.prems w have "(p, c) \<in> set ws" by auto
    from snoc.IH [OF this, of m] False show ?thesis by (simp add: eq)
  qed
qed

lemma yaml_content_tail:
  "\<exists>head. yaml_content abs_output images annotations =
     head @ ''# Total images: '' @ str_nat images @ newline
          # ''# Total annotations: '' @ str_nat annotations @ [newline]"
proof
  show "yaml_content abs_output images annotations =
     (''# DeepFashion2 YOLO Dataset Configuration'' @ [newline]
      @ ''path: '' @ abs_output @ [newline]
      @ ''train: images/train'' @ [newline]
      @ ''val: images/val'' @ [newline]
      @ [newline]
      @ ''# Classes'' @ [newline]
      @ ''nc: '' @ str_nat (length CLASSES) @ [newline]
      @ ''names: '' @ repr_str_list CLASSES @ [newline]
      @ [newline]
      @ ''# Dataset Info'' @ [newline]
      @ ''# Source: DeepFashion2 (https://github.com/switchablenorms/DeepFashion2)'' @ [newline]
      @ ''# Categories mapped from 13 DeepFashion2 classes to 6 garment types'' @ [newline])
     @ ''# Total images: '' @ str_nat images @ newline
          # ''# Total annotations: '' @ str_nat annotations @ [newline]"
    by (simp add: yaml_content_def)
qed

lemma label_filter_file_writes:
  "filter (\<lambda>w. prefix (output_dir @ ''/labels/'') (fst w)) (file_writes output_dir ys images af)
     = (case anno_lines images af of
          Inl e \<Rightarrow> []
        | Inr ls \<Rightarrow> if ls = [] then [] else [(label_path output_dir ys (anno_stem af), join_lines ls)])"
proof (cases "anno_lines images af")
  case (Inl e)
  then show ?thesis by (simp add: file_writes_def)
next
  case (Inr ls)
  show ?thesis
  proof (cases "ls = []")
    case True
    then show ?thesis using Inr by (simp add: file_writes_def split: option.splits)
  next
    case False
    from anno_lines_nonempty_image [OF Inr False] obtain img
      where "images (anno_stem af @ ''.jpg'') = Some img" by blast
    from file_writes_nonempty [OF Inr False this, of output_dir ys]
    show ?thesis using Inr False by (simp add: label_path_prefix image_path_no_prefix)
  qed
qed

lemma label_writes_split:
  assumes "collect_lines images afs = Inr lss"
  shows "length (filter (\<lambda>w. prefix (output_dir @ ''/labels/'') (fst w))
                   (concat (map (file_writes output_dir ys images) afs))) = count_images lss
       \<and> sum_list (map (\<lambda>w. line_count (snd w))
                   (filter (\<lambda>w. prefix (output_dir @ ''/labels/'') (fst w))
                      (concat (map (file_writes output_dir ys images) afs)))) = count_annotations lss"
  using assms
proof (induction afs arbitrary: lss)
  case Nil
  then show ?case by (simp add: count_images_def count_annotations_def)
next
  case (Cons af afs)
  from Cons.prems obtain ls lss' where ls: "anno_lines images af = Inr ls"
    and lss': "collect_lines images afs = Inr lss'" and lss: "lss = ls # lss'"
    by (auto simp: ebind_eq_Inr)
  have lc: "ls \<noteq> [] \<Longrightarrow> line_count (join_lines ls) = length ls"
    by (rule line_count_join_lines [OF _ anno_lines_no_newline [OF ls]])
  from Cons.IH [OF lss'] show ?case
    using lc by (simp add: lss label_filter_file_writes ls count_images_def count_annotations_def)
qed



theorem deterministic_rerun_witness:
  "\<exists>st1 st2.
     convert_deepfashion2_to_yolo (\<lambda>p. ''/home/user/'' @ p)
          \<lparr>train_split = Some
             \<lparr>anno_files =
                [\<lparr>anno_stem = ''000001'',
                  anno_json = Some (PDict
                    [(''source'', PStr ''shop''),
                     (''item1'', PDict [(''category_name'', PStr ''bag''),
                        (''bounding_box'', PList [PInt 10, PInt 20, PInt 110, PInt 220])])])\<rparr>,
                 \<lparr>anno_stem = ''000002'',
                  anno_json = Some (PDict
                    [(''item1'', PDict [(''category_name'', PStr ''short sleeve top''),
                        (''bounding_box'', PList [PInt 10, PInt 20, PInt 110, PInt 220])]),
                     (''item2'', PDict [(''category_name'', PStr ''skirt''),
                        (''bounding_box'', PList [PInt 10, PInt 20, PInt 110, PInt 220])])])\<rparr>],
              image_files =
                [''000001.jpg'' \<mapsto> \<lparr>image_bytes = ''JFIF1'', image_size = Inr (200, 400)\<rparr>,
                 ''000002.jpg'' \<mapsto> \<lparr>image_bytes = ''JFIF2'', image_size = Inr (200, 400)\<rparr>]\<rparr>,
           validation_split = None\<rparr> ''deepfashion2'' ''out'' Map.empty {}
        = Inr st1
     \<and> convert_deepfashion2_to_yolo (\<lambda>p. ''/home/user/'' @ p)
          \<lparr>train_split = Some
             \<lparr>anno_files =
                [\<lparr>anno_stem = ''000002'',
                  anno_json = Some (PDict
                    [(''item1'', PDict [(''category_name'', PStr ''short sleeve top''),
                        (''bounding_box'', PList [PInt 10, PInt 20, PInt 110, PInt 220])]),
                     (''item2'', PDict [(''category_name'', PStr ''skirt''),
                        (''bounding_box'', PList [PInt 10, PInt 20, PInt 110, PInt 220])])])\<rparr>,
                 \<lparr>anno_stem = ''000001'',
                  anno_json = Some (PDict
                    [(''source'', PStr ''shop''),
                     (''item1'', PDict [(''category_name'', PStr ''bag''),
                        (''bounding_box'', PList [PInt 10, PInt 20, PInt 110, PInt 220])])])\<rparr>],
              image_files =
                [''000001.jpg'' \<mapsto> \<lparr>image_bytes = ''JFIF1'', image_size = Inr (200, 400)\<rparr>,
                 ''000002.jpg'' \<mapsto> \<lparr>image_bytes = ''JFIF2'', image_size = Inr (200, 400)\<rparr>]\<rparr>,
           validation_split = None\<rparr> ''deepfashion2'' ''out'' (out_files st1) (out_dirs st1)
        = Inr st2
     \<and> out_files st2 = out_files st1
     \<and> total_images st2 = total_images st1
     \<and> total_annotations st2 = total_annotations st1"
proof -
  define a1 where "a1 = \<lparr>anno_stem = ''000001'',
                  anno_json = Some (PDict
                    [(''source'', PStr ''shop''),
                     (''item1'', PDict [(''category_name'', PStr ''bag''),
                        (''bounding_box'', PList [PInt 10, PInt 20, PInt 110, PInt 220])])])\<rparr>"
  define a2 where "a2 = \<lparr>anno_stem = ''000002'',
                  anno_json = Some (PDict
                    [(''item1'', PDict [(''category_name'', PStr ''short sleeve top''),
                        (''bounding_box'', PList [PInt 10, PInt 20, PInt 110, PInt 220])]),
                     (''item2'', PDict [(''category_name'', PStr ''skirt''),
                        (''bounding_box'', PList [PInt 10, PInt 20, PInt 110, PInt 220])])])\<rparr>"
  define imgs where "imgs =
                [''000001.jpg'' \<mapsto> \<lparr>image_bytes = ''JFIF1'', image_size = Inr (200, 400)\<rparr>,
                 ''000002.jpg'' \<mapsto> \<lparr>image_bytes = ''JFIF2'', image_size = Inr (200 :: nat, 400 :: nat)\<rparr>]"
  define src where "src = \<lparr>train_split = Some \<lparr>anno_files = [a1, a2], image_files = imgs\<rparr>,
                           validation_split = None\<rparr>"
  define src' where "src' = \<lparr>train_split = Some \<lparr>anno_files = [a2, a1], image_files = imgs\<rparr>,
                            validation_split = None\<rparr>"
  have l1: "anno_lines imgs a1 = Inr []"
    by (simp add: anno_lines_def a1_def imgs_def py_items_def bag_lines del: convert_items.simps)
  have l2: "anno_lines imgs a2 = Inr [''0 0.300000 0.300000 0.500000 0.500000'',
                                     ''1 0.300000 0.300000 0.500000 0.500000'']"
    by (simp add: anno_lines_def a2_def imgs_def py_items_def two_lines del: convert_items.simps)
  have lt: "split_lines src ''train'' = Inr [[], [''0 0.300000 0.300000 0.500000 0.500000'',
                                                 ''1 0.300000 0.300000 0.500000 0.500000'']]"
    by (simp add: split_lines_def split_files_def split_images_def lookup_split_def src_def l1 l2)
  have lv: "split_lines src ''validation'' = Inr []"
    by (simp add: split_lines_def split_files_def split_images_def lookup_split_def src_def)
  obtain st1 where
    run: "convert_deepfashion2_to_yolo (\<lambda>p. ''/home/user/'' @ p) src ''deepfashion2'' ''out''
            Map.empty {} = Inr st1"
    by (simp add: convert_eq lt lv)
  have wf: "wf_source src"
    by (simp add: wf_source_def split_files_def lookup_split_def src_def a1_def a2_def)
  have wf': "wf_source src'"
    by (simp add: wf_source_def split_files_def lookup_split_def src'_def a1_def a2_def)
  have same: "same_source src src'"
    by (auto simp: same_source_def same_files_def src_def src'_def)
  from deterministic_rerun [OF run wf wf' same] run
  show ?thesis unfolding src_def src'_def a1_def a2_def imgs_def by blast
qed
section \<open>The bounding-box round trip\<close>

subsection \<open>Propagation of relative errors\<close>

lemma err_step:
  fixes x :: rat
  assumes "\<bar>y - x\<bar> \<le> u * \<bar>x\<bar> + e" and "\<bar>x\<bar> \<le> K" and "0 \<le> u"
  shows "\<bar>y - x\<bar> \<le> u * K + e"
proof -
  have "u * \<bar>x\<bar> \<le> u * K" using assms(2,3) by (rule mult_left_mono)
  with assms(1) show ?thesis by linarith
qed

lemma div_close:
  fixes p q :: rat
  assumes "\<bar>p - q\<bar> \<le> d * W" and "0 < W"
  shows "\<bar>p / W - q / W\<bar> \<le> d"
proof -
  have "\<bar>p / W - q / W\<bar> = \<bar>p - q\<bar> / W"
    using assms(2) by (simp add: diff_divide_distrib [symmetric])
  also have "\<dots> \<le> d * W / W" using assms by (intro divide_right_mono) simp_all
  finally show ?thesis using assms(2) by simp
qed

lemma mult_close:
  fixes a :: rat
  assumes "\<bar>a - A / W\<bar> \<le> d" and "0 < W"
  shows "\<bar>a * W - A\<bar> \<le> d * W"
proof -
  have "(a - A / W) * W = a * W - A" using assms(2) by (simp add: field_simps)
  then have "\<bar>a * W - A\<bar> = \<bar>(a - A / W) * W\<bar>" by simp
  also have "\<dots> = \<bar>a - A / W\<bar> * W" using assms(2) by (simp add: abs_mult)
  also have "\<dots> \<le> d * W" using assms by (intro mult_right_mono) simp_all
  finally show ?thesis .
qed

lemma round_trip_arith:
  fixes A B W u e s m xc d wd hw a b r1 r2 :: rat
  assumes W: "1 \<le> W" and A: "0 \<le> A" and AB: "A < B" and B: "B \<le> W"
    and u: "0 \<le> u" "u \<le> 1 / 64" and e: "0 \<le> e" "e \<le> u"
    and s: "\<bar>s - (A + B)\<bar> \<le> u * \<bar>A + B\<bar> + e"
    and m: "\<bar>m - s / 2\<bar> \<le> u * \<bar>s / 2\<bar> + e"
    and xc: "\<bar>xc - m / W\<bar> \<le> u * \<bar>m / W\<bar> + e"
    and d: "\<bar>d - (B - A)\<bar> \<le> u * \<bar>B - A\<bar> + e"
    and wd: "\<bar>wd - d / W\<bar> \<le> u * \<bar>d / W\<bar> + e"
    and hw: "\<bar>hw - wd / 2\<bar> \<le> u * \<bar>wd / 2\<bar> + e"
    and a: "\<bar>a - (xc - hw)\<bar> \<le> u * \<bar>xc - hw\<bar> + e"
    and b: "\<bar>b - (xc + hw)\<bar> \<le> u * \<bar>xc + hw\<bar> + e"
    and r1: "\<bar>r1 - a * W\<bar> \<le> u * \<bar>a * W\<bar> + e"
    and r2: "\<bar>r2 - b * W\<bar> \<le> u * \<bar>b * W\<bar> + e"
  shows "\<bar>r1 - A\<bar> \<le> 16 * u * W" and "\<bar>r2 - B\<bar> \<le> 16 * u * W"
proof -
  define uW where "uW = u * W"
  define C where "C = (A + B) / 2"
  define D where "D = (B - A) / W"
  have C2: "A + B = 2 * C" by (simp add: C_def)
  have W0: "0 < W" using W by simp
  have uW: "u \<le> uW" unfolding uW_def using W u(1) by (simp add: mult_le_cancel_left1)
  have uW64: "uW \<le> W / 64" unfolding uW_def using u(2) W0 by (simp add: mult_right_mono)
  \<comment> \<open>the sum and its half\<close>
  have "\<bar>A + B\<bar> \<le> 2 * W" using A AB B by linarith
  from err_step [OF s this u(1)] have s1: "\<bar>s - (A + B)\<bar> \<le> 2 * uW + e"
    by (simp add: uW_def)
  have "\<bar>s / 2\<bar> \<le> 5 / 4 * W" using s1 A AB B uW64 e uW C2 by linarith
  from err_step [OF m this u(1)] have m1: "\<bar>m - s / 2\<bar> \<le> 5 / 4 * uW + e"
    by (simp add: uW_def)
  have "\<bar>m - C\<bar> \<le> 15 / 4 * uW" using m1 s1 e uW C2 by linarith
  then have "\<bar>m - C\<bar> \<le> (15 / 4 * u) * W" by (simp add: uW_def)
  from div_close [OF this W0] have m3: "\<bar>m / W - C / W\<bar> \<le> 15 / 4 * u" .
  have X: "0 \<le> C / W" "C / W \<le> 1"
    using A AB B W0 by (simp_all add: C_def field_simps)
  have "\<bar>m / W\<bar> \<le> 5 / 4" using m3 X u(2) by linarith
  from err_step [OF xc this u(1)] have "\<bar>xc - m / W\<bar> \<le> 5 / 4 * u + e" by simp
  with m3 e(2) have xc1: "\<bar>xc - C / W\<bar> \<le> 6 * u" by linarith
  \<comment> \<open>the difference, the extent and its half\<close>
  have "\<bar>B - A\<bar> \<le> W" using A AB B by linarith
  from err_step [OF d this u(1)] have "\<bar>d - (B - A)\<bar> \<le> 2 * uW"
    using e uW by (simp add: uW_def)
  then have "\<bar>d - (B - A)\<bar> \<le> (2 * u) * W" by (simp add: uW_def)
  from div_close [OF this W0] have d2: "\<bar>d / W - D\<bar> \<le> 2 * u" by (simp add: D_def)
  have D: "0 \<le> D" "D \<le> 1"
    using A AB B W0 by (simp_all add: D_def field_simps)
  have "\<bar>d / W\<bar> \<le> 5 / 4" using d2 D u(2) by linarith
  from err_step [OF wd this u(1)] have "\<bar>wd - d / W\<bar> \<le> 5 / 4 * u + e" by simp
  with d2 e(2) have wd1: "\<bar>wd - D\<bar> \<le> 17 / 4 * u" by linarith
  have "\<bar>wd / 2\<bar> \<le> 1" using wd1 D u(2) by linarith
  from err_step [OF hw this u(1)] have "\<bar>hw - wd / 2\<bar> \<le> u + e" by simp
  with wd1 e(2) have hw1: "\<bar>hw - D / 2\<bar> \<le> 33 / 8 * u" by linarith
  \<comment> \<open>the two corners, scaled\<close>
  have cA: "C / W - D / 2 = A / W"
    and cB: "C / W + D / 2 = B / W"
    using W0 by (simp_all add: C_def D_def field_simps)
  have AW: "0 \<le> A / W" "A / W \<le> 1" and BW: "0 \<le> B / W" "B / W \<le> 1"
    using A AB B W0 by (simp_all add: field_simps)
  have a0: "\<bar>(xc - hw) - A / W\<bar> \<le> 81 / 8 * u" using xc1 hw1 cA by linarith
  then have "\<bar>xc - hw\<bar> \<le> 5 / 4" using AW u(2) by linarith
  from err_step [OF a this u(1)] have "\<bar>a - (xc - hw)\<bar> \<le> 5 / 4 * u + e" by simp
  with a0 e(2) have a1: "\<bar>a - A / W\<bar> \<le> 99 / 8 * u" by linarith
  have b0: "\<bar>(xc + hw) - B / W\<bar> \<le> 81 / 8 * u" using xc1 hw1 cB by linarith
  then have "\<bar>xc + hw\<bar> \<le> 5 / 4" using BW u(2) by linarith
  from err_step [OF b this u(1)] have "\<bar>b - (xc + hw)\<bar> \<le> 5 / 4 * u + e" by simp
  with b0 e(2) have b1: "\<bar>b - B / W\<bar> \<le> 99 / 8 * u" by linarith
  \<comment> \<open>back to pixels\<close>
  from mult_close [OF a1 W0] have aW: "\<bar>a * W - A\<bar> \<le> 99 / 8 * uW" by (simp add: uW_def)
  from mult_close [OF b1 W0] have bW: "\<bar>b * W - B\<bar> \<le> 99 / 8 * uW" by (simp add: uW_def)
  have "\<bar>a * W\<bar> \<le> 5 / 4 * W" using aW A AB B uW64 by linarith
  from err_step [OF r1 this u(1)] have "\<bar>r1 - a * W\<bar> \<le> 5 / 4 * uW + e"
    by (simp add: uW_def)
  with aW e uW have "\<bar>r1 - A\<bar> \<le> 16 * uW" by linarith
  then show "\<bar>r1 - A\<bar> \<le> 16 * u * W" by (simp add: uW_def)
  have "\<bar>b * W\<bar> \<le> 5 / 4 * W" using bW A AB B uW64 by linarith
  from err_step [OF r2 this u(1)] have "\<bar>r2 - b * W\<bar> \<le> 5 / 4 * uW + e"
    by (simp add: uW_def)
  with bW e uW have "\<bar>r2 - B\<bar> \<le> 16 * uW" by linarith
  then show "\<bar>r2 - B\<bar> \<le> 16 * u * W" by (simp add: uW_def)
qed

subsection \<open>Rounding error of the float operations\<close>

lemma pixel_iff: "pixel v x = (\<exists>n. as_num v = Some n \<and> num_finite n \<and> num_val n = x)"
  by (simp add: pixel_def split: option.splits)

lemma roundoff_bounds:
  "0 \<le> unit_roundoff" "unit_roundoff \<le> 1 / 64" "0 \<le> min_half_ulp" "min_half_ulp \<le> unit_roundoff"
  by (simp_all add: unit_roundoff_def min_half_ulp_def)

lemma half_ulp_le:
  assumes "x \<noteq> 0"
  shows "pow2 (ulp_exp x) / 2 \<le> unit_roundoff * \<bar>x\<bar> + min_half_ulp"
proof (cases "ilog2 x < - 1022")
  case True
  then have "ulp_exp x \<le> - 1074" by (simp add: ulp_exp_def)
  then have "pow2 (ulp_exp x) \<le> pow2 (- 1074)" by (simp add: pow2_le_iff)
  then have "pow2 (ulp_exp x) / 2 \<le> min_half_ulp"
    by (simp add: pow2_def min_half_ulp_def)
  moreover have "0 \<le> unit_roundoff * \<bar>x\<bar>" by (simp add: unit_roundoff_def)
  ultimately show ?thesis by linarith
next
  case False
  with assms have "x \<noteq> 0" and "- 1022 \<le> ilog2 x" by simp_all
  then have "pow2 (ulp_exp x) / 2 \<le> \<bar>x\<bar> / 2 ^ 53" by (rule ulp_exp_le)
  then show ?thesis by (simp add: unit_roundoff_def min_half_ulp_def)
qed

lemma is_finite_iff: "is_finite f \<longleftrightarrow> \<not> is_inf f \<and> f \<noteq> NaN"
  by (cases f) simp_all

lemma round_double_error:
  assumes "\<bar>x\<bar> \<le> 2 ^ 1023"
  shows "is_finite (round_double x)"
    and "\<bar>fval (round_double x) - x\<bar> \<le> unit_roundoff * \<bar>x\<bar> + min_half_ulp"
proof -
  from round_double_finite [OF assms] show fin: "is_finite (round_double x)"
    by (simp add: is_finite_iff)
  then have ni: "\<not> is_inf (round_double x)" by (simp add: is_finite_iff)
  show "\<bar>fval (round_double x) - x\<bar> \<le> unit_roundoff * \<bar>x\<bar> + min_half_ulp"
  proof (cases "x = 0")
    case True
    then show ?thesis using roundoff_bounds by (simp add: round_double_def)
  next
    case False
    from fval_round_double_error [OF ni] half_ulp_le [OF False] show ?thesis by linarith
  qed
qed

lemma is_finite_cases:
  assumes "is_finite f"
  obtains r where "f = Fin r" | "f = NegZero"
  using assms by (cases f) simp_all

lemma fval_zero: "is_finite f \<Longrightarrow> is_zero f \<Longrightarrow> fval f = 0"
  by (cases f) simp_all

lemma fval_nonzero: "is_finite f \<Longrightarrow> \<not> is_zero f \<Longrightarrow> fval f \<noteq> 0"
  by (cases f) simp_all

lemma exact_error: "\<bar>x - x\<bar> \<le> unit_roundoff * \<bar>x\<bar> + min_half_ulp"
  using roundoff_bounds by simp

lemma float_add_error:
  assumes "is_finite a" and "is_finite b" and "\<bar>fval a + fval b\<bar> \<le> 2 ^ 1023"
  shows "is_finite (float_add a b)"
    and "\<bar>fval (float_add a b) - (fval a + fval b)\<bar>
           \<le> unit_roundoff * \<bar>fval a + fval b\<bar> + min_half_ulp"
proof -
  have "is_finite (float_add a b) \<and> \<bar>fval (float_add a b) - (fval a + fval b)\<bar>
           \<le> unit_roundoff * \<bar>fval a + fval b\<bar> + min_half_ulp"
  proof (cases "a = NegZero \<or> b = NegZero")
    case True
    then show ?thesis
      using assms(1,2) exact_error [of "fval a"] exact_error [of "fval b"]
      by (auto simp: float_add_def elim!: is_finite_cases)
  next
    case False
    then have "float_add a b = round_double (fval a + fval b)"
      using assms(1,2) by (auto simp: float_add_def elim!: is_finite_cases)
    then show ?thesis using round_double_error [OF assms(3)] by simp
  qed
  then show "is_finite (float_add a b)"
    and "\<bar>fval (float_add a b) - (fval a + fval b)\<bar>
           \<le> unit_roundoff * \<bar>fval a + fval b\<bar> + min_half_ulp"
    by simp_all
qed

lemma float_neg_finite: "is_finite b \<Longrightarrow> is_finite (float_neg b)"
  by (cases b) simp_all

lemma fval_float_neg: "fval (float_neg b) = - fval b"
  by (cases b) simp_all

lemma float_sub_error:
  assumes "is_finite a" and "is_finite b" and "\<bar>fval a - fval b\<bar> \<le> 2 ^ 1023"
  shows "is_finite (float_sub a b)"
    and "\<bar>fval (float_sub a b) - (fval a - fval b)\<bar>
           \<le> unit_roundoff * \<bar>fval a - fval b\<bar> + min_half_ulp"
  using float_add_error [OF assms(1) float_neg_finite [OF assms(2)]] assms(3)
  by (simp_all add: float_sub_def fval_float_neg)

lemma float_mul_error:
  assumes "is_finite a" and "is_finite b" and "\<bar>fval a * fval b\<bar> \<le> 2 ^ 1023"
  shows "is_finite (float_mul a b)"
    and "\<bar>fval (float_mul a b) - fval a * fval b\<bar>
           \<le> unit_roundoff * \<bar>fval a * fval b\<bar> + min_half_ulp"
proof -
  have "is_finite (float_mul a b) \<and> \<bar>fval (float_mul a b) - fval a * fval b\<bar>
           \<le> unit_roundoff * \<bar>fval a * fval b\<bar> + min_half_ulp"
  proof (cases "is_zero a \<or> is_zero b")
    case True
    then have z: "fval a * fval b = 0" using assms(1,2) by (auto simp: fval_zero)
    have "float_mul a b = signed_zero (sign_bit a \<noteq> sign_bit b)"
      using True assms(1,2) by (auto simp: float_mul_def is_finite_iff)
    then have "is_finite (float_mul a b)" and "fval (float_mul a b) = 0"
      by (simp_all add: signed_zero_def)
    then show ?thesis using roundoff_bounds(3) by (simp only: z) simp
  next
    case False
    then have "float_mul a b = round_double (fval a * fval b)"
      using assms(1,2) by (auto simp: float_mul_def is_finite_iff)
    then show ?thesis using round_double_error [OF assms(3)] by simp
  qed
  then show "is_finite (float_mul a b)"
    and "\<bar>fval (float_mul a b) - fval a * fval b\<bar>
           \<le> unit_roundoff * \<bar>fval a * fval b\<bar> + min_half_ulp"
    by simp_all
qed

lemma ieee_div_error:
  assumes "is_finite a" and "is_finite b" and "\<bar>fval a / fval b\<bar> \<le> 2 ^ 1023"
  shows "is_finite (ieee_div a b)"
    and "\<bar>fval (ieee_div a b) - fval a / fval b\<bar>
           \<le> unit_roundoff * \<bar>fval a / fval b\<bar> + min_half_ulp"
proof -
  have "is_finite (ieee_div a b) \<and> \<bar>fval (ieee_div a b) - fval a / fval b\<bar>
           \<le> unit_roundoff * \<bar>fval a / fval b\<bar> + min_half_ulp"
  proof (cases "is_zero a")
    case True
    then have z: "fval a / fval b = 0" using assms(1) by (simp add: fval_zero)
    have "ieee_div a b = signed_zero (sign_bit a \<noteq> sign_bit b)"
      using True assms(1,2) by (auto simp: ieee_div_def is_finite_iff)
    then have "is_finite (ieee_div a b)" and "fval (ieee_div a b) = 0"
      by (simp_all add: signed_zero_def)
    then show ?thesis using roundoff_bounds(3) by (simp only: z) simp
  next
    case False
    then have "ieee_div a b = round_double (fval a / fval b)"
      using assms(1,2) by (auto simp: ieee_div_def is_finite_iff)
    then show ?thesis using round_double_error [OF assms(3)] by simp
  qed
  then show "is_finite (ieee_div a b)"
    and "\<bar>fval (ieee_div a b) - fval a / fval b\<bar>
           \<le> unit_roundoff * \<bar>fval a / fval b\<bar> + min_half_ulp"
    by simp_all
qed

subsection \<open>Rounding error of Python's arithmetic on numbers\<close>

lemma err_bound:
  fixes x :: rat
  assumes "\<bar>y - x\<bar> \<le> unit_roundoff * \<bar>x\<bar> + min_half_ulp" and "\<bar>x\<bar> \<le> K"
  shows "\<bar>y\<bar> \<le> 2 * K + 1"
proof -
  have "unit_roundoff * \<bar>x\<bar> \<le> 1 * K"
    using assms(2) roundoff_bounds by (intro mult_mono) simp_all
  moreover have "min_half_ulp \<le> 1" using roundoff_bounds by linarith
  ultimately show ?thesis using assms by linarith
qed

lemma float_of_num_exact:
  assumes "num_finite x" and "\<bar>num_val x\<bar> \<le> 2 ^ 53"
  shows "\<exists>f. float_of_num x = Inr f \<and> is_finite f \<and> fval f = num_val x"
proof (cases x)
  case (NInt i)
  with assms(2) have "\<bar>i\<bar> \<le> 2 ^ 53" by (simp flip: of_int_abs)
  then show ?thesis using NInt by (simp add: int_to_float_exact)
next
  case (NFloat f)
  with assms(1) show ?thesis by simp
qed

lemma py_add_error:
  assumes "pixel p A" and "pixel q B" and "\<bar>A\<bar> \<le> 2 ^ 53" and "\<bar>B\<bar> \<le> 2 ^ 53"
  shows "\<exists>c s. py_add p q = Inr c \<and> pixel c s
           \<and> \<bar>s - (A + B)\<bar> \<le> unit_roundoff * \<bar>A + B\<bar> + min_half_ulp"
proof -
  from assms(1) obtain x where x: "as_num p = Some x" "num_finite x" "num_val x = A"
    by (auto simp: pixel_iff)
  from assms(2) obtain y where y: "as_num q = Some y" "num_finite y" "num_val y = B"
    by (auto simp: pixel_iff)
  have add: "py_add p q = num_add x y" using x(1) y(1) by (simp add: py_add_def)
  show ?thesis
  proof (cases "\<exists>i j. x = NInt i \<and> y = NInt j")
    case True
    then obtain i j where "x = NInt i" "y = NInt j" by blast
    with x y have "py_add p q = Inr (PInt (i + j))" "pixel (PInt (i + j)) (A + B)"
      by (auto simp: add pixel_iff)
    then show ?thesis using exact_error [of "A + B"] by blast
  next
    case False
    from float_of_num_exact [OF x(2)] assms(3) x(3)
    obtain f where f: "float_of_num x = Inr f" "is_finite f" "fval f = A" by auto
    from float_of_num_exact [OF y(2)] assms(4) y(3)
    obtain g where g: "float_of_num y = Inr g" "is_finite g" "fval g = B" by auto
    have "num_add x y = Inr (PFloat (float_add f g))"
      using False f(1) g(1) by (cases x; cases y) simp_all
    moreover have "\<bar>fval f + fval g\<bar> \<le> 2 ^ 1023" using assms(3,4) f(3) g(3) by simp
    from float_add_error [OF f(2) g(2) this]
    have "pixel (PFloat (float_add f g)) (fval (float_add f g))"
      and "\<bar>fval (float_add f g) - (A + B)\<bar> \<le> unit_roundoff * \<bar>A + B\<bar> + min_half_ulp"
      by (simp_all add: pixel_iff f(3) g(3))
    ultimately show ?thesis using add by metis
  qed
qed

lemma py_sub_error:
  assumes "pixel p A" and "pixel q B" and "\<bar>A\<bar> \<le> 2 ^ 53" and "\<bar>B\<bar> \<le> 2 ^ 53"
  shows "\<exists>c s. py_sub q p = Inr c \<and> pixel c s
           \<and> \<bar>s - (B - A)\<bar> \<le> unit_roundoff * \<bar>B - A\<bar> + min_half_ulp"
proof -
  from assms(1) obtain x where x: "as_num p = Some x" "num_finite x" "num_val x = A"
    by (auto simp: pixel_iff)
  from assms(2) obtain y where y: "as_num q = Some y" "num_finite y" "num_val y = B"
    by (auto simp: pixel_iff)
  have sub: "py_sub q p = num_sub y x" using x(1) y(1) by (simp add: py_sub_def)
  show ?thesis
  proof (cases "\<exists>i j. x = NInt i \<and> y = NInt j")
    case True
    then obtain i j where "x = NInt i" "y = NInt j" by blast
    with x y have "py_sub q p = Inr (PInt (j - i))" "pixel (PInt (j - i)) (B - A)"
      by (auto simp: sub pixel_iff)
    then show ?thesis using exact_error [of "B - A"] by blast
  next
    case False
    from float_of_num_exact [OF x(2)] assms(3) x(3)
    obtain f where f: "float_of_num x = Inr f" "is_finite f" "fval f = A" by auto
    from float_of_num_exact [OF y(2)] assms(4) y(3)
    obtain g where g: "float_of_num y = Inr g" "is_finite g" "fval g = B" by auto
    have "num_sub y x = Inr (PFloat (float_sub g f))"
      using False f(1) g(1) by (cases x; cases y) simp_all
    moreover have "\<bar>fval g - fval f\<bar> \<le> 2 ^ 1023" using assms(3,4) f(3) g(3) by simp
    from float_sub_error [OF g(2) f(2) this]
    have "pixel (PFloat (float_sub g f)) (fval (float_sub g f))"
      and "\<bar>fval (float_sub g f) - (B - A)\<bar> \<le> unit_roundoff * \<bar>B - A\<bar> + min_half_ulp"
      by (simp_all add: pixel_iff f(3) g(3))
    ultimately show ?thesis using sub by metis
  qed
qed

lemma py_truediv_error:
  assumes "pixel p A" and "\<bar>A\<bar> \<le> 2 ^ 1000" and "0 < k" and "k \<le> 2 ^ 53"
  shows "\<exists>f. py_truediv p (PInt k) = Inr f \<and> is_finite f
           \<and> \<bar>fval f - A / of_int k\<bar> \<le> unit_roundoff * \<bar>A / of_int k\<bar> + min_half_ulp"
proof -
  from assms(1) obtain x where x: "as_num p = Some x" "num_finite x" "num_val x = A"
    by (auto simp: pixel_iff)
  have dv: "py_truediv p (PInt k) = num_truediv x (NInt k)"
    using x(1) by (simp add: py_truediv_def)
  have k1: "(1 :: rat) \<le> of_int k" using assms(3) by simp
  have "\<bar>A / of_int k\<bar> = \<bar>A\<bar> / of_int k" using assms(3) by simp
  also have "\<dots> \<le> \<bar>A\<bar> / 1" using k1 by (intro divide_left_mono) simp_all
  finally have q: "\<bar>A / of_int k\<bar> \<le> 2 ^ 1023" using assms(2) by simp
  show ?thesis
  proof (cases x)
    case (NInt i)
    show ?thesis
    proof (cases "i = 0")
      case True
      then have "py_truediv p (PInt k) = Inr (Fin 0)" "A = 0"
        using NInt x(3) assms(3) by (simp_all add: dv int_true_divide_def signed_zero_def)
      then show ?thesis using roundoff_bounds(3) by simp
    next
      case False
      from round_double_error [OF q] NInt x(3)
      have "is_finite (round_double (of_int i / of_int k))"
        and "\<bar>fval (round_double (of_int i / of_int k)) - A / of_int k\<bar>
               \<le> unit_roundoff * \<bar>A / of_int k\<bar> + min_half_ulp"
        by auto
      moreover from this(1) have "py_truediv p (PInt k) = Inr (round_double (of_int i / of_int k))"
        using False NInt assms(3)
        by (simp add: dv int_true_divide_def finite_or_overflow_def is_finite_iff)
      ultimately show ?thesis by blast
    qed
  next
    case (NFloat f)
    have kf: "int_to_float k = Inr (Fin (of_int k))"
      using assms(3,4) by (intro int_to_float_exact) simp
    have "py_truediv p (PInt k) = Inr (ieee_div f (Fin (of_int k)))"
      using NFloat assms(3) by (simp add: dv kf float_div_def)
    moreover from NFloat x(2,3) have f: "is_finite f" "fval f = A" by simp_all
    from ieee_div_error [OF f(1), of "Fin (of_int k)"] q f(2)
    have "is_finite (ieee_div f (Fin (of_int k)))"
      and "\<bar>fval (ieee_div f (Fin (of_int k))) - A / of_int k\<bar>
             \<le> unit_roundoff * \<bar>A / of_int k\<bar> + min_half_ulp"
      by simp_all
    ultimately show ?thesis by blast
  qed
qed

subsection \<open>The conversion and its inverse along one axis\<close>

lemma pow_bounds:
  "(8 :: rat) * 2 ^ 53 \<le> 2 ^ 1000" "(0 :: rat) < 2 ^ 53" "(100 :: rat) \<le> 2 ^ 1023"
  by simp_all

lemma center_chain:
  assumes p: "pixel p A" and q: "pixel q B"
    and A: "0 \<le> A" and AB: "A < B" and B: "B \<le> of_nat w" and w: "w \<le> 2 ^ 53"
  obtains c mf xc s m where
    "py_add p q = Inr c" and "py_truediv c (PInt 2) = Inr mf"
    and "py_truediv (PFloat mf) (PInt (int w)) = Inr xc"
    and "is_finite xc" and "\<bar>fval xc\<bar> \<le> 16"
    and "\<bar>s - (A + B)\<bar> \<le> unit_roundoff * \<bar>A + B\<bar> + min_half_ulp"
    and "\<bar>m - s / 2\<bar> \<le> unit_roundoff * \<bar>s / 2\<bar> + min_half_ulp"
    and "\<bar>fval xc - m / of_nat w\<bar> \<le> unit_roundoff * \<bar>m / of_nat w\<bar> + min_half_ulp"
proof -
  let ?W = "of_nat w :: rat"
  have W53: "?W \<le> 2 ^ 53" using w by simp
  have "0 < ?W" using A AB B by linarith
  then have wpos: "0 < w" by simp
  then have W1: "1 \<le> ?W" by simp
  have w0: "0 < int w" using wpos by simp
  have wk: "int w \<le> 2 ^ 53" using w by simp
  have "\<bar>A\<bar> \<le> 2 ^ 53" "\<bar>B\<bar> \<le> 2 ^ 53" using A AB B W53 by linarith+
  from py_add_error [OF p q this] obtain c s where
    c: "py_add p q = Inr c" "pixel c s"
    and s: "\<bar>s - (A + B)\<bar> \<le> unit_roundoff * \<bar>A + B\<bar> + min_half_ulp"
    by blast
  have "\<bar>A + B\<bar> \<le> 2 * ?W" using A AB B by linarith
  from err_bound [OF s this] have sb: "\<bar>s\<bar> \<le> 5 * ?W" using W1 by linarith
  then have "\<bar>s\<bar> \<le> 2 ^ 1000" using W53 pow_bounds by linarith
  from py_truediv_error [OF c(2) this, of 2] obtain mf where
    mf: "py_truediv c (PInt 2) = Inr mf" "is_finite mf"
    and m: "\<bar>fval mf - s / 2\<bar> \<le> unit_roundoff * \<bar>s / 2\<bar> + min_half_ulp"
    by auto
  have "\<bar>s / 2\<bar> \<le> 5 / 2 * ?W" using sb by linarith
  from err_bound [OF m this] have mb: "\<bar>fval mf\<bar> \<le> 6 * ?W" using W1 by linarith
  then have m1000: "\<bar>fval mf\<bar> \<le> 2 ^ 1000" using W53 pow_bounds by linarith
  have pm: "pixel (PFloat mf) (fval mf)" using mf(2) by (simp add: pixel_iff)
  from py_truediv_error [OF pm m1000 w0 wk] obtain xc where
    xc: "py_truediv (PFloat mf) (PInt (int w)) = Inr xc" "is_finite xc"
    and x: "\<bar>fval xc - fval mf / ?W\<bar> \<le> unit_roundoff * \<bar>fval mf / ?W\<bar> + min_half_ulp"
    by auto
  have "\<bar>fval mf / ?W\<bar> = \<bar>fval mf\<bar> / ?W" using W1 by simp
  also have "\<dots> \<le> 6 * ?W / ?W" using mb W1 by (intro divide_right_mono) simp_all
  finally have "\<bar>fval mf / ?W\<bar> \<le> 6" using W1 by simp
  from err_bound [OF x this] have xb: "\<bar>fval xc\<bar> \<le> 16" by linarith
  from c(1) mf(1) xc(1) xc(2) xb s m x show thesis by (rule that)
qed

lemma extent_chain:
  assumes p: "pixel p A" and q: "pixel q B"
    and A: "0 \<le> A" and AB: "A < B" and B: "B \<le> of_nat w" and w: "w \<le> 2 ^ 53"
  obtains c wd d where
    "py_sub q p = Inr c" and "py_truediv c (PInt (int w)) = Inr wd"
    and "is_finite wd" and "\<bar>fval wd\<bar> \<le> 16"
    and "\<bar>d - (B - A)\<bar> \<le> unit_roundoff * \<bar>B - A\<bar> + min_half_ulp"
    and "\<bar>fval wd - d / of_nat w\<bar> \<le> unit_roundoff * \<bar>d / of_nat w\<bar> + min_half_ulp"
proof -
  let ?W = "of_nat w :: rat"
  have W53: "?W \<le> 2 ^ 53" using w by simp
  have "0 < ?W" using A AB B by linarith
  then have wpos: "0 < w" by simp
  then have W1: "1 \<le> ?W" by simp
  have w0: "0 < int w" using wpos by simp
  have wk: "int w \<le> 2 ^ 53" using w by simp
  have "\<bar>A\<bar> \<le> 2 ^ 53" "\<bar>B\<bar> \<le> 2 ^ 53" using A AB B W53 by linarith+
  from py_sub_error [OF p q this] obtain c d where
    c: "py_sub q p = Inr c" "pixel c d"
    and d: "\<bar>d - (B - A)\<bar> \<le> unit_roundoff * \<bar>B - A\<bar> + min_half_ulp"
    by blast
  have "\<bar>B - A\<bar> \<le> ?W" using A AB B by linarith
  from err_bound [OF d this] have db: "\<bar>d\<bar> \<le> 3 * ?W" using W1 by linarith
  then have "\<bar>d\<bar> \<le> 2 ^ 1000" using W53 pow_bounds by linarith
  from py_truediv_error [OF c(2) this w0 wk] obtain wd where
    wd: "py_truediv c (PInt (int w)) = Inr wd" "is_finite wd"
    and x: "\<bar>fval wd - d / ?W\<bar> \<le> unit_roundoff * \<bar>d / ?W\<bar> + min_half_ulp"
    by auto
  have "\<bar>d / ?W\<bar> = \<bar>d\<bar> / ?W" using W1 by simp
  also have "\<dots> \<le> 3 * ?W / ?W" using db W1 by (intro divide_right_mono) simp_all
  finally have "\<bar>d / ?W\<bar> \<le> 3" using W1 by simp
  from err_bound [OF x this] have wb: "\<bar>fval wd\<bar> \<le> 16" by linarith
  from c(1) wd(1) wd(2) wb d x show thesis by (rule that)
qed

lemma inverse_chain:
  assumes xc: "is_finite xc" "\<bar>fval xc\<bar> \<le> 16" and wd: "is_finite wd" "\<bar>fval wd\<bar> \<le> 16"
    and w: "0 < w" "w \<le> 2 ^ 53"
  obtains lo hi hw a b where
    "inverse_axis w xc wd = Inr (lo, hi)" and "is_finite lo" and "is_finite hi"
    and "\<bar>hw - fval wd / 2\<bar> \<le> unit_roundoff * \<bar>fval wd / 2\<bar> + min_half_ulp"
    and "\<bar>a - (fval xc - hw)\<bar> \<le> unit_roundoff * \<bar>fval xc - hw\<bar> + min_half_ulp"
    and "\<bar>b - (fval xc + hw)\<bar> \<le> unit_roundoff * \<bar>fval xc + hw\<bar> + min_half_ulp"
    and "\<bar>fval lo - a * of_nat w\<bar> \<le> unit_roundoff * \<bar>a * of_nat w\<bar> + min_half_ulp"
    and "\<bar>fval hi - b * of_nat w\<bar> \<le> unit_roundoff * \<bar>b * of_nat w\<bar> + min_half_ulp"
proof -
  let ?W = "of_nat w :: rat"
  have W53: "?W \<le> 2 ^ 53" using w(2) by simp
  have W0: "0 \<le> ?W" by simp
  have two: "int_to_float 2 = Inr (Fin 2)" using int_to_float_exact [of 2] by simp
  have wf: "int_to_float (int w) = Inr (Fin ?W)"
    using int_to_float_exact [of "int w"] w(2) by simp
  define half where "half = ieee_div wd (Fin 2)"
  have "\<bar>fval wd / fval (Fin 2)\<bar> \<le> 2 ^ 1023" using wd(2) by simp
  from ieee_div_error [OF wd(1) _ this]
  have half: "is_finite half"
    "\<bar>fval half - fval wd / 2\<bar> \<le> unit_roundoff * \<bar>fval wd / 2\<bar> + min_half_ulp"
    by (simp_all add: half_def)
  have "\<bar>fval wd / 2\<bar> \<le> 8" using wd(2) by linarith
  from err_bound [OF half(2) this] have hb: "\<bar>fval half\<bar> \<le> 17" by linarith
  define lo' where "lo' = float_sub xc half"
  define hi' where "hi' = float_add xc half"
  have "\<bar>fval xc - fval half\<bar> \<le> 2 ^ 1023" using xc(2) hb pow_bounds by linarith
  from float_sub_error [OF xc(1) half(1) this]
  have lo': "is_finite lo'"
    "\<bar>fval lo' - (fval xc - fval half)\<bar> \<le> unit_roundoff * \<bar>fval xc - fval half\<bar> + min_half_ulp"
    by (simp_all add: lo'_def)
  have "\<bar>fval xc + fval half\<bar> \<le> 2 ^ 1023" using xc(2) hb pow_bounds by linarith
  from float_add_error [OF xc(1) half(1) this]
  have hi': "is_finite hi'"
    "\<bar>fval hi' - (fval xc + fval half)\<bar> \<le> unit_roundoff * \<bar>fval xc + fval half\<bar> + min_half_ulp"
    by (simp_all add: hi'_def)
  have "\<bar>fval xc - fval half\<bar> \<le> 33" using xc(2) hb by linarith
  from err_bound [OF lo'(2) this] have lb: "\<bar>fval lo'\<bar> \<le> 67" by linarith
  have "\<bar>fval xc + fval half\<bar> \<le> 33" using xc(2) hb by linarith
  from err_bound [OF hi'(2) this] have ub: "\<bar>fval hi'\<bar> \<le> 67" by linarith
  have prod: "\<And>v. \<bar>v\<bar> \<le> 67 \<Longrightarrow> \<bar>v * fval (Fin ?W)\<bar> \<le> 2 ^ 1023"
  proof -
    fix v :: rat
    assume "\<bar>v\<bar> \<le> 67"
    then have "\<bar>v\<bar> * ?W \<le> 67 * 2 ^ 53" using W53 W0 by (intro mult_mono) simp_all
    then show "\<bar>v * fval (Fin ?W)\<bar> \<le> 2 ^ 1023" by (simp add: abs_mult)
  qed
  from float_mul_error [OF lo'(1) _ prod [OF lb]]
  have lo: "is_finite (float_mul lo' (Fin ?W))"
    "\<bar>fval (float_mul lo' (Fin ?W)) - fval lo' * ?W\<bar>
       \<le> unit_roundoff * \<bar>fval lo' * ?W\<bar> + min_half_ulp"
    by simp_all
  from float_mul_error [OF hi'(1) _ prod [OF ub]]
  have hi: "is_finite (float_mul hi' (Fin ?W))"
    "\<bar>fval (float_mul hi' (Fin ?W)) - fval hi' * ?W\<bar>
       \<le> unit_roundoff * \<bar>fval hi' * ?W\<bar> + min_half_ulp"
    by simp_all
  have "inverse_axis w xc wd = Inr (float_mul lo' (Fin ?W), float_mul hi' (Fin ?W))"
    by (simp add: inverse_axis_def two wf float_div_def half_def lo'_def hi'_def)
  then show thesis using lo(1) hi(1) half(2) lo'(2) hi'(2) lo(2) hi(2) by (rule that)
qed

lemma axis_round_trip:
  assumes p: "pixel p A" and q: "pixel q B"
    and A: "0 \<le> A" and AB: "A < B" and B: "B \<le> of_nat w" and w: "w \<le> 2 ^ 53"
  obtains c mf xc e wd lo hi where
    "py_add p q = Inr c" and "py_truediv c (PInt 2) = Inr mf"
    and "py_truediv (PFloat mf) (PInt (int w)) = Inr xc"
    and "py_sub q p = Inr e" and "py_truediv e (PInt (int w)) = Inr wd"
    and "inverse_axis w xc wd = Inr (lo, hi)" and "is_finite lo" and "is_finite hi"
    and "\<bar>fval lo - A\<bar> \<le> of_nat w / 2 ^ 49" and "\<bar>fval hi - B\<bar> \<le> of_nat w / 2 ^ 49"
proof -
  let ?W = "of_nat w :: rat"
  have "0 < ?W" using A AB B by linarith
  then have wpos: "0 < w" by simp
  then have W1: "1 \<le> ?W" by simp
  from center_chain [OF p q A AB B w] obtain c mf xc s m where
    c: "py_add p q = Inr c" "py_truediv c (PInt 2) = Inr mf"
      "py_truediv (PFloat mf) (PInt (int w)) = Inr xc"
      "is_finite xc" "\<bar>fval xc\<bar> \<le> 16"
    and s: "\<bar>s - (A + B)\<bar> \<le> unit_roundoff * \<bar>A + B\<bar> + min_half_ulp"
    and m: "\<bar>m - s / 2\<bar> \<le> unit_roundoff * \<bar>s / 2\<bar> + min_half_ulp"
    and x: "\<bar>fval xc - m / ?W\<bar> \<le> unit_roundoff * \<bar>m / ?W\<bar> + min_half_ulp"
    by blast
  from extent_chain [OF p q A AB B w] obtain e wd d where
    e: "py_sub q p = Inr e" "py_truediv e (PInt (int w)) = Inr wd"
      "is_finite wd" "\<bar>fval wd\<bar> \<le> 16"
    and d: "\<bar>d - (B - A)\<bar> \<le> unit_roundoff * \<bar>B - A\<bar> + min_half_ulp"
    and wd: "\<bar>fval wd - d / ?W\<bar> \<le> unit_roundoff * \<bar>d / ?W\<bar> + min_half_ulp"
    by blast
  from inverse_chain [OF c(4,5) e(3,4) wpos w] obtain lo hi hw a b where
    i: "inverse_axis w xc wd = Inr (lo, hi)" "is_finite lo" "is_finite hi"
    and hw: "\<bar>hw - fval wd / 2\<bar> \<le> unit_roundoff * \<bar>fval wd / 2\<bar> + min_half_ulp"
    and a: "\<bar>a - (fval xc - hw)\<bar> \<le> unit_roundoff * \<bar>fval xc - hw\<bar> + min_half_ulp"
    and b: "\<bar>b - (fval xc + hw)\<bar> \<le> unit_roundoff * \<bar>fval xc + hw\<bar> + min_half_ulp"
    and lo: "\<bar>fval lo - a * ?W\<bar> \<le> unit_roundoff * \<bar>a * ?W\<bar> + min_half_ulp"
    and hi: "\<bar>fval hi - b * ?W\<bar> \<le> unit_roundoff * \<bar>b * ?W\<bar> + min_half_ulp"
    by blast
  note rt = round_trip_arith [OF W1 A AB B roundoff_bounds s m x d wd hw a b lo hi]
  have "16 * unit_roundoff * ?W = ?W / 2 ^ 49" by (simp add: unit_roundoff_def)
  with rt have "\<bar>fval lo - A\<bar> \<le> ?W / 2 ^ 49" "\<bar>fval hi - B\<bar> \<le> ?W / 2 ^ 49" by simp_all
  with c(1-3) e(1,2) i show thesis by (rule that)
qed

text \<open>
  C2: for every pixel box \<^verbatim>\<open>(x1, y1, x2, y2)\<close> of numbers and image dimensions
  \<^verbatim>\<open>(w, h)\<close> with \<^verbatim>\<open>0 <= x1 < x2 <= w\<close> and \<^verbatim>\<open>0 <= y1 < y2 <= h\<close>, the conversion of
  lines 97 to 100 returns a normalized center box, the inverse transform applied to it
  returns a box of finite floats, and every reconstructed coordinate differs from the
  original one by at most \<^verbatim>\<open>w / 2^49\<close> (for \<^verbatim>\<open>x\<close>) or \<^verbatim>\<open>h / 2^49\<close> (for \<^verbatim>\<open>y\<close>), that is 16
  unit roundoffs of binary64 relative to the image dimension.  The coordinates are any
  ints or finite floats; the dimensions are at most \<^verbatim>\<open>2^53\<close>, so that their conversion to
  float is exact (the dimensions of an image are far below).
\<close>

theorem bbox_round_trip:
  assumes "pixel x1 a1" and "pixel y1 b1" and "pixel x2 a2" and "pixel y2 b2"
    and "0 \<le> a1" and "a1 < a2" and "a2 \<le> of_nat w"
    and "0 \<le> b1" and "b1 < b2" and "b2 \<le> of_nat h"
    and "w \<le> 2 ^ 53" and "h \<le> 2 ^ 53"
  shows "\<exists>x_center y_center width height x1' y1' x2' y2'.
           yolo_box w h x1 y1 x2 y2 = Inr (x_center, y_center, width, height)
         \<and> inverse_box w h x_center y_center width height = Inr (x1', y1', x2', y2')
         \<and> is_finite x1' \<and> is_finite y1' \<and> is_finite x2' \<and> is_finite y2'
         \<and> \<bar>fval x1' - a1\<bar> \<le> of_nat w / 2 ^ 49 \<and> \<bar>fval x2' - a2\<bar> \<le> of_nat w / 2 ^ 49
         \<and> \<bar>fval y1' - b1\<bar> \<le> of_nat h / 2 ^ 49 \<and> \<bar>fval y2' - b2\<bar> \<le> of_nat h / 2 ^ 49"
proof -
  from axis_round_trip [OF assms(1,3,5,6,7,11)] obtain sx mx xc dx wd xlo xhi where
    x: "py_add x1 x2 = Inr sx" "py_truediv sx (PInt 2) = Inr mx"
       "py_truediv (PFloat mx) (PInt (int w)) = Inr xc"
       "py_sub x2 x1 = Inr dx" "py_truediv dx (PInt (int w)) = Inr wd"
       "inverse_axis w xc wd = Inr (xlo, xhi)" "is_finite xlo" "is_finite xhi"
       "\<bar>fval xlo - a1\<bar> \<le> of_nat w / 2 ^ 49" "\<bar>fval xhi - a2\<bar> \<le> of_nat w / 2 ^ 49"
    by blast
  from axis_round_trip [OF assms(2,4,8,9,10,12)] obtain sy my yc dy ht ylo yhi where
    y: "py_add y1 y2 = Inr sy" "py_truediv sy (PInt 2) = Inr my"
       "py_truediv (PFloat my) (PInt (int h)) = Inr yc"
       "py_sub y2 y1 = Inr dy" "py_truediv dy (PInt (int h)) = Inr ht"
       "inverse_axis h yc ht = Inr (ylo, yhi)" "is_finite ylo" "is_finite yhi"
       "\<bar>fval ylo - b1\<bar> \<le> of_nat h / 2 ^ 49" "\<bar>fval yhi - b2\<bar> \<le> of_nat h / 2 ^ 49"
    by blast
  have fwd: "yolo_box w h x1 y1 x2 y2 = Inr (xc, yc, wd, ht)"
    by (simp add: yolo_box_def x(1-5) y(1-5))
  have inv: "inverse_box w h xc yc wd ht = Inr (xlo, ylo, xhi, yhi)"
    by (simp add: inverse_box_def x(6) y(6))
  from fwd inv x(7-10) y(7-10) show ?thesis by blast
qed

theorem bbox_round_trip_witness:
  "\<exists>x_center y_center width height x1' y1' x2' y2'.
     yolo_box 200 400 (PInt 10) (PInt 20) (PInt 110) (PInt 220)
       = Inr (x_center, y_center, width, height)
   \<and> inverse_box 200 400 x_center y_center width height = Inr (x1', y1', x2', y2')
   \<and> is_finite x1' \<and> is_finite y1' \<and> is_finite x2' \<and> is_finite y2'
   \<and> \<bar>fval x1' - 10\<bar> \<le> 200 / 2 ^ 49 \<and> \<bar>fval x2' - 110\<bar> \<le> 200 / 2 ^ 49
   \<and> \<bar>fval y1' - 20\<bar> \<le> 400 / 2 ^ 49 \<and> \<bar>fval y2' - 220\<bar> \<le> 400 / 2 ^ 49"
  using bbox_round_trip [of "PInt 10" 10 "PInt 20" 20 "PInt 110" 110 "PInt 220" 220 200 400]
  by (simp add: pixel_def)
section \<open>The conversion of a box of numbers\<close>

subsection \<open>The value of Python's arithmetic on numbers\<close>

lemma round_half_even_minus: "round_half_even (- x) = - round_half_even x"
proof (cases "x = of_int \<lfloor>x\<rfloor>")
  case True
  then obtain n where "x = of_int n" ..
  then have "- x = of_int (- n)" by simp
  then show ?thesis using \<open>x = of_int n\<close> by (simp only: round_half_even_of_int)
next
  case False
  define f where "f = \<lfloor>x\<rfloor>"
  have "of_int \<lfloor>x\<rfloor> \<le> x" by (rule of_int_floor_le)
  from le_neq_trans [OF this False [symmetric]] have lo: "of_int f < x" by (simp only: f_def)
  have hi: "x < of_int f + 1" unfolding f_def using floor_correct [of x] by simp
  have fm: "\<lfloor>- x\<rfloor> = - f - 1"
    by (rule floor_unique) (use lo hi in simp_all)
  have e: "even (- f - 1) \<longleftrightarrow> odd f" by simp
  show ?thesis
    unfolding round_half_even_def Let_def fm f_def [symmetric] e
    using lo hi by (auto simp: algebra_simps)
qed

lemma ilog2_minus: "ilog2 (- x) = ilog2 x"
  by (simp add: ilog2_def)

lemma round_double_minus:
  assumes "x \<noteq> 0"
  shows "round_double (- x) = float_neg (round_double x)"
proof -
  define q where "q = max (ilog2 x - 52) (- 1074)"
  define m where "m = round_half_even (x / pow2 q)"
  have m': "round_half_even (- x / pow2 q) = - m"
    using round_half_even_minus [of "x / pow2 q"] by (simp add: m_def)
  have a: "\<bar>of_int (- m) * pow2 q\<bar> = \<bar>of_int m * pow2 q\<bar>" by (simp add: abs_mult)
  have z: "of_int m * pow2 q = 0 \<longleftrightarrow> m = 0" using pow2_neq0 [of q] by simp
  show ?thesis
    using assms a z
    unfolding round_double_def Let_def ilog2_minus q_def [symmetric] m' m_def [symmetric]
    by (auto simp: not_less)
qed

lemma is_double_minus: "is_double r \<Longrightarrow> is_double (- r)"
proof (cases "r = 0")
  case True
  then show ?thesis by (simp add: is_double_def round_double_def)
next
  case False
  assume "is_double r"
  then show ?thesis using False by (simp add: is_double_def round_double_minus)
qed

lemma fl_0 [simp]: "fl 0 = 0"
  by (simp add: fl_def round_double_def)

lemma fl_double: "is_double x \<Longrightarrow> fl x = x"
  by (simp add: fl_def is_double_def)

lemma is_double_of_int: "\<bar>i\<bar> \<le> 2 ^ 53 \<Longrightarrow> is_double (of_int i)"
  by (simp add: is_double_def round_double_of_int)

lemma fl_bound:
  assumes "\<bar>x\<bar> \<le> K" and "K \<le> 2 ^ 1023"
  shows "is_finite (round_double x)" and "\<bar>fl x\<bar> \<le> 2 * K + 1"
proof -
  have x: "\<bar>x\<bar> \<le> 2 ^ 1023" using assms by linarith
  from round_double_error [OF x] show "is_finite (round_double x)" by simp
  from round_double_error(2) [OF x] have "\<bar>fl x - x\<bar> \<le> unit_roundoff * \<bar>x\<bar> + min_half_ulp"
    by (simp add: fl_def)
  from err_bound [OF this assms(1)] show "\<bar>fl x\<bar> \<le> 2 * K + 1" .
qed

lemma float_add_value:
  assumes "is_finite a" and "is_finite b" and "is_double (fval a)" and "is_double (fval b)"
    and "\<bar>fval a + fval b\<bar> \<le> 2 ^ 1023"
  shows "is_finite (float_add a b) \<and> fval (float_add a b) = fl (fval a + fval b)"
proof (cases "a = NegZero \<or> b = NegZero")
  case True
  then show ?thesis
    using assms(1-4) by (auto simp: float_add_def fl_double elim!: is_finite_cases)
next
  case False
  then have "float_add a b = round_double (fval a + fval b)"
    using assms(1,2) by (auto simp: float_add_def elim!: is_finite_cases)
  then show ?thesis using round_double_error(1) [OF assms(5)] by (simp add: fl_def)
qed

lemma float_sub_value:
  assumes "is_finite a" and "is_finite b" and "is_double (fval a)" and "is_double (fval b)"
    and "\<bar>fval a - fval b\<bar> \<le> 2 ^ 1023"
  shows "is_finite (float_sub a b) \<and> fval (float_sub a b) = fl (fval a - fval b)"
  using float_add_value [OF assms(1) float_neg_finite [OF assms(2)]] assms(3,4,5)
  by (simp add: float_sub_def fval_float_neg is_double_minus)

lemma ieee_div_value:
  assumes "is_finite a" and "is_finite b" and "\<bar>fval a / fval b\<bar> \<le> 2 ^ 1023"
  shows "is_finite (ieee_div a b) \<and> fval (ieee_div a b) = fl (fval a / fval b)"
proof (cases "is_zero a")
  case True
  then have z: "fval a / fval b = 0" using assms(1) by (simp add: fval_zero)
  have "ieee_div a b = signed_zero (sign_bit a \<noteq> sign_bit b)"
    using True assms(1,2) by (auto simp: ieee_div_def is_finite_iff)
  then have "is_finite (ieee_div a b)" and "fval (ieee_div a b) = 0"
    by (simp_all add: signed_zero_def)
  then show ?thesis by (simp only: z fl_0)
next
  case False
  then have "ieee_div a b = round_double (fval a / fval b)"
    using assms(1,2) by (auto simp: ieee_div_def is_finite_iff)
  then show ?thesis using round_double_error(1) [OF assms(3)] by (simp add: fl_def)
qed

lemma coordinate_num:
  assumes "coordinate p A"
  obtains x where "as_num p = Some x" and "num_finite x" and "num_val x = A"
    and "is_double A" and "\<bar>A\<bar> \<le> 2 ^ 52"
  using assms by (auto simp: coordinate_def pixel_iff)

lemma pow_52_53: "(2 :: rat) ^ 52 + 2 ^ 52 = 2 ^ 53" "(2 :: rat) ^ 52 \<le> 2 ^ 53" "(2 :: rat) ^ 53 \<le> 2 ^ 1023"
  by simp_all

lemma py_add_value:
  assumes "coordinate p A" and "coordinate q B"
  shows "\<exists>c. py_add p q = Inr c \<and> pixel c (fl (A + B))"
proof -
  from assms(1) obtain x where x: "as_num p = Some x" "num_finite x" "num_val x = A"
    and A: "is_double A" "\<bar>A\<bar> \<le> 2 ^ 52" by (rule coordinate_num)
  from assms(2) obtain y where y: "as_num q = Some y" "num_finite y" "num_val y = B"
    and B: "is_double B" "\<bar>B\<bar> \<le> 2 ^ 52" by (rule coordinate_num)
  have add: "py_add p q = num_add x y" using x(1) y(1) by (simp add: py_add_def)
  have AB: "\<bar>A + B\<bar> \<le> 2 ^ 53" using A(2) B(2) pow_52_53(1) by linarith
  show ?thesis
  proof (cases "\<exists>i j. x = NInt i \<and> y = NInt j")
    case True
    then obtain i j where ij: "x = NInt i" "y = NInt j" by blast
    with x(3) y(3) AB have "\<bar>of_int (i + j) :: rat\<bar> \<le> 2 ^ 53" by simp
    then have "\<bar>i + j\<bar> \<le> 2 ^ 53" by (simp flip: of_int_abs)
    then have "fl (of_int (i + j)) = of_int (i + j)" by (intro fl_double is_double_of_int)
    with ij x y have "py_add p q = Inr (PInt (i + j))" "pixel (PInt (i + j)) (fl (A + B))"
      by (auto simp: add pixel_iff)
    then show ?thesis by blast
  next
    case False
    have "\<bar>num_val x\<bar> \<le> 2 ^ 53" using x(3) A(2) pow_52_53(2) by linarith
    from float_of_num_exact [OF x(2) this] x(3)
    obtain f where f: "float_of_num x = Inr f" "is_finite f" "fval f = A" by auto
    have "\<bar>num_val y\<bar> \<le> 2 ^ 53" using y(3) B(2) pow_52_53(2) by linarith
    from float_of_num_exact [OF y(2) this] y(3)
    obtain g where g: "float_of_num y = Inr g" "is_finite g" "fval g = B" by auto
    have "num_add x y = Inr (PFloat (float_add f g))"
      using False f(1) g(1) by (cases x; cases y) simp_all
    moreover have "\<bar>fval f + fval g\<bar> \<le> 2 ^ 1023" using AB f(3) g(3) pow_52_53(3) by linarith
    from float_add_value [OF f(2) g(2) _ _ this] A(1) B(1)
    have "pixel (PFloat (float_add f g)) (fl (A + B))"
      by (simp add: pixel_iff f(3) g(3))
    ultimately show ?thesis using add by metis
  qed
qed

lemma py_sub_value:
  assumes "coordinate p A" and "coordinate q B"
  shows "\<exists>c. py_sub q p = Inr c \<and> pixel c (fl (B - A))"
proof -
  from assms(1) obtain x where x: "as_num p = Some x" "num_finite x" "num_val x = A"
    and A: "is_double A" "\<bar>A\<bar> \<le> 2 ^ 52" by (rule coordinate_num)
  from assms(2) obtain y where y: "as_num q = Some y" "num_finite y" "num_val y = B"
    and B: "is_double B" "\<bar>B\<bar> \<le> 2 ^ 52" by (rule coordinate_num)
  have sub: "py_sub q p = num_sub y x" using x(1) y(1) by (simp add: py_sub_def)
  have AB: "\<bar>B - A\<bar> \<le> 2 ^ 53" using A(2) B(2) pow_52_53(1) by linarith
  show ?thesis
  proof (cases "\<exists>i j. x = NInt i \<and> y = NInt j")
    case True
    then obtain i j where ij: "x = NInt i" "y = NInt j" by blast
    with x(3) y(3) AB have "\<bar>of_int (j - i) :: rat\<bar> \<le> 2 ^ 53" by simp
    then have "\<bar>j - i\<bar> \<le> 2 ^ 53" by (simp flip: of_int_abs)
    then have "fl (of_int (j - i)) = of_int (j - i)" by (intro fl_double is_double_of_int)
    with ij x y have "py_sub q p = Inr (PInt (j - i))" "pixel (PInt (j - i)) (fl (B - A))"
      by (auto simp: sub pixel_iff)
    then show ?thesis by blast
  next
    case False
    have "\<bar>num_val x\<bar> \<le> 2 ^ 53" using x(3) A(2) pow_52_53(2) by linarith
    from float_of_num_exact [OF x(2) this] x(3)
    obtain f where f: "float_of_num x = Inr f" "is_finite f" "fval f = A" by auto
    have "\<bar>num_val y\<bar> \<le> 2 ^ 53" using y(3) B(2) pow_52_53(2) by linarith
    from float_of_num_exact [OF y(2) this] y(3)
    obtain g where g: "float_of_num y = Inr g" "is_finite g" "fval g = B" by auto
    have "num_sub y x = Inr (PFloat (float_sub g f))"
      using False f(1) g(1) by (cases x; cases y) simp_all
    moreover have "\<bar>fval g - fval f\<bar> \<le> 2 ^ 1023" using AB f(3) g(3) pow_52_53(3) by linarith
    from float_sub_value [OF g(2) f(2) _ _ this] A(1) B(1)
    have "pixel (PFloat (float_sub g f)) (fl (B - A))"
      by (simp add: pixel_iff f(3) g(3))
    ultimately show ?thesis using sub by metis
  qed
qed

lemma py_truediv_value:
  assumes "pixel p A" and "\<bar>A\<bar> \<le> 2 ^ 1000" and "0 < k" and "k \<le> 2 ^ 53"
  shows "\<exists>f. py_truediv p (PInt k) = Inr f \<and> is_finite f \<and> fval f = fl (A / of_int k)"
proof -
  from assms(1) obtain x where x: "as_num p = Some x" "num_finite x" "num_val x = A"
    by (auto simp: pixel_iff)
  have dv: "py_truediv p (PInt k) = num_truediv x (NInt k)"
    using x(1) by (simp add: py_truediv_def)
  have k1: "(1 :: rat) \<le> of_int k" using assms(3) by simp
  have "\<bar>A / of_int k\<bar> = \<bar>A\<bar> / of_int k" using assms(3) by simp
  also have "\<dots> \<le> \<bar>A\<bar> / 1" using k1 by (intro divide_left_mono) simp_all
  finally have q: "\<bar>A / of_int k\<bar> \<le> 2 ^ 1023" using assms(2) by simp
  show ?thesis
  proof (cases x)
    case (NInt i)
    show ?thesis
    proof (cases "i = 0")
      case True
      then have "py_truediv p (PInt k) = Inr (Fin 0)" "A = 0"
        using NInt x(3) assms(3) by (simp_all add: dv int_true_divide_def signed_zero_def)
      then show ?thesis by simp
    next
      case False
      from round_double_error(1) [OF q] NInt x(3)
      have fin: "is_finite (round_double (of_int i / of_int k))" by auto
      then have "py_truediv p (PInt k) = Inr (round_double (of_int i / of_int k))"
        using False NInt assms(3)
        by (simp add: dv int_true_divide_def finite_or_overflow_def is_finite_iff)
      with fin NInt x(3) show ?thesis by (auto simp: fl_def)
    qed
  next
    case (NFloat f)
    have kf: "int_to_float k = Inr (Fin (of_int k))"
      using assms(3,4) by (intro int_to_float_exact) simp
    have "py_truediv p (PInt k) = Inr (ieee_div f (Fin (of_int k)))"
      using NFloat assms(3) by (simp add: dv kf float_div_def)
    moreover from NFloat x(2,3) have f: "is_finite f" "fval f = A" by simp_all
    from ieee_div_value [OF f(1), of "Fin (of_int k)"] q f(2)
    have "is_finite (ieee_div f (Fin (of_int k)))"
      and "fval (ieee_div f (Fin (of_int k))) = fl (A / of_int k)"
      by simp_all
    ultimately show ?thesis by blast
  qed
qed

subsection \<open>The label line of an instance\<close>

lemma fl_chain_bounds:
  "(2 :: rat) ^ 53 \<le> 2 ^ 1023" "(2 * 2 ^ 53 + 1 :: rat) \<le> 2 ^ 1000"
  "(2 * 2 ^ 53 + 1 :: rat) \<le> 2 ^ 1023" "(2 * (2 * 2 ^ 53 + 1) + 1 :: rat) \<le> 2 ^ 1000"
  by simp_all

lemma axis_values:
  assumes p: "coordinate p A" and q: "coordinate q B" and w: "0 < w" "w \<le> 2 ^ 53"
  obtains c mf xc e wd where
    "py_add p q = Inr c" and "py_truediv c (PInt 2) = Inr mf"
    and "py_truediv (PFloat mf) (PInt (int w)) = Inr xc"
    and "py_sub q p = Inr e" and "py_truediv e (PInt (int w)) = Inr wd"
    and "is_finite xc" and "is_finite wd"
    and "fval xc = fl (fl (fl (A + B) / 2) / of_nat w)"
    and "fval wd = fl (fl (B - A) / of_nat w)"
proof -
  have w0: "0 < int w" and wk: "int w \<le> 2 ^ 53" using w by simp_all
  have A: "\<bar>A\<bar> \<le> 2 ^ 52" and B: "\<bar>B\<bar> \<le> 2 ^ 52" using p q by (simp_all add: coordinate_def)
  have s: "\<bar>A + B\<bar> \<le> 2 ^ 53" and d: "\<bar>B - A\<bar> \<le> 2 ^ 53"
    using A B pow_52_53(1) by linarith+
  from py_add_value [OF p q] obtain c where c: "py_add p q = Inr c" "pixel c (fl (A + B))"
    by blast
  from fl_bound(2) [OF s fl_chain_bounds(1)] have sb: "\<bar>fl (A + B)\<bar> \<le> 2 * 2 ^ 53 + 1" .
  then have "\<bar>fl (A + B)\<bar> \<le> 2 ^ 1000" using fl_chain_bounds(2) by linarith
  from py_truediv_value [OF c(2) this, of 2] obtain mf where
    mf: "py_truediv c (PInt 2) = Inr mf" "is_finite mf" "fval mf = fl (fl (A + B) / 2)"
    by auto
  have "\<bar>fl (A + B) / 2\<bar> \<le> 2 * 2 ^ 53 + 1" using sb by linarith
  from fl_bound(2) [OF this fl_chain_bounds(3)]
  have "\<bar>fval mf\<bar> \<le> 2 ^ 1000" using mf(3) fl_chain_bounds(4) by linarith
  moreover have "pixel (PFloat mf) (fval mf)" using mf(2) by (simp add: pixel_iff)
  ultimately obtain xc where
    xc: "py_truediv (PFloat mf) (PInt (int w)) = Inr xc" "is_finite xc"
      "fval xc = fl (fl (fl (A + B) / 2) / of_nat w)"
    using py_truediv_value [of "PFloat mf" "fval mf" "int w", OF _ _ w0 wk] mf(3) by auto
  from py_sub_value [OF p q] obtain e where e: "py_sub q p = Inr e" "pixel e (fl (B - A))"
    by blast
  from fl_bound(2) [OF d fl_chain_bounds(1)]
  have "\<bar>fl (B - A)\<bar> \<le> 2 ^ 1000" using fl_chain_bounds(2) by linarith
  from py_truediv_value [OF e(2) this w0 wk] obtain wd where
    wd: "py_truediv e (PInt (int w)) = Inr wd" "is_finite wd"
      "fval wd = fl (fl (B - A) / of_nat w)"
    by auto
  from c(1) mf(1) xc(1) e(1) wd(1) xc(2) wd(2) xc(3) wd(3) show thesis by (rule that)
qed


lemma coordinate_int: "\<bar>i\<bar> \<le> 2 ^ 52 \<Longrightarrow> coordinate (PInt i) (of_int i)"
proof -
  assume a: "\<bar>i\<bar> \<le> 2 ^ 52"
  then have "\<bar>i\<bar> \<le> 2 ^ 53" by simp
  then have "is_double (of_int i)" by (rule is_double_of_int)
  moreover have "\<bar>of_int i :: rat\<bar> \<le> 2 ^ 52" using a by (simp flip: of_int_abs)
  ultimately show ?thesis by (simp add: coordinate_def pixel_def)
qed

lemma finite_value: "is_finite f \<Longrightarrow> fval f = r \<Longrightarrow> r \<noteq> 0 \<Longrightarrow> f = Fin r"
  by (cases f) simp_all

lemma round_double_three_halves: "round_double (3 / 2) = Fin (3 / 2)"
  using round_double_exact [of 3 "- 1"] by (simp add: pow2_def)


end
